theory Spec2Isabelle
  imports Complex_Main "HOL-Library.AList" "HOL-Library.Char_ord" "HOL-Library.List_Lexorder"
begin

section \<open>Shared data model\<close>

text \<open>
  Python strings are modelled as \<^typ>\<open>string\<close>; a character stands for the code point of
  the same number, so the model covers the code points below 256. Python integers are
  \<^typ>\<open>int\<close>, floats that are only compared with each other are \<^typ>\<open>real\<close> (no NaN).
  Exceptions are values of \<open>error\<close>, carried in the left summand of a result.
\<close>

datatype error =
    ValueError string
  | AssertionError string
  | EnvironmentError string
  | LLMError string

text \<open>\<open>config.py\<close>: the dataclass \<open>RAGConfig\<close> with its defaults.\<close>

record RAGConfig =
  model_name :: string
  chunk_size_tokens :: int
  chunk_overlap_tokens :: int
  top_k :: int
  max_pages_pdf :: int
  max_distance :: real
  max_query_tokens :: int
  max_context_tokens :: int
  max_output_tokens :: int
  max_file_size_mb :: int
  session_dir :: string
  device :: string
  groq_model :: string
  groq_fallbacks :: "string list"
  allow_zip_download :: bool

definition default_config :: RAGConfig where
  "default_config =
     \<lparr> model_name = ''sentence-transformers/all-MiniLM-L6-v2'',
       chunk_size_tokens = 500,
       chunk_overlap_tokens = 100,
       top_k = 4,
       max_pages_pdf = 100,
       max_distance = 12 / 10,
       max_query_tokens = 512,
       max_context_tokens = 2000,
       max_output_tokens = 512,
       max_file_size_mb = 25,
       session_dir = ''sessions'',
       device = ''cpu'',
       groq_model = ''llama-3.3-70b-versatile'',
       groq_fallbacks = [''llama-3.1-8b-instant''],
       allow_zip_download = True \<rparr>"

text \<open>
  A LangChain \<open>Document\<close>: the text and a metadata dictionary (an association list, read
  with \<open>map_of\<close> as \<open>dict.get\<close> reads it).
\<close>

record Document =
  page_content :: string
  metadata :: "(string \<times> string) list"

section \<open>Python string operations\<close>

text \<open>
  \<open>str.isspace\<close>, which is also the class \<open>\s\<close> of \<open>re\<close> on \<open>str\<close> patterns and the set
  \<open>str.strip\<close> removes: the code points 9 to 13, 28 to 31, 32, 133 and 160 (below 256).
\<close>

definition is_space :: "char \<Rightarrow> bool" where
  "is_space c = (of_char c \<in> {9, 10, 11, 12, 13, 28, 29, 30, 31, 32, 133, 160 :: nat})"

text \<open>The line boundaries of \<open>str.splitlines\<close> below 256; \<open>\r\n\<close> counts as one boundary.\<close>

definition is_linebreak :: "char \<Rightarrow> bool" where
  "is_linebreak c = (of_char c \<in> {10, 11, 12, 13, 28, 29, 30, 133 :: nat})"

text \<open>The class \<open>\d\<close>: below 256 the decimal digits are \<open>0\<close> to \<open>9\<close>.\<close>

definition is_digit :: "char \<Rightarrow> bool" where
  "is_digit c = (48 \<le> (of_char c :: nat) \<and> (of_char c :: nat) \<le> 57)"

definition lstrip :: "string \<Rightarrow> string" where
  "lstrip s = dropWhile is_space s"

definition rstrip :: "string \<Rightarrow> string" where
  "rstrip s = rev (dropWhile is_space (rev s))"

definition strip :: "string \<Rightarrow> string" where
  "strip s = lstrip (rstrip s)"

text \<open>\<open>sep.join(xs)\<close>.\<close>

fun py_join :: "string \<Rightarrow> string list \<Rightarrow> string" where
  "py_join sep [] = []"
| "py_join sep [x] = x"
| "py_join sep (x # y # ys) = x @ sep @ py_join sep (y # ys)"

text \<open>\<open>xs[a:b]\<close> for indices \<open>0 <= a\<close> and \<open>0 <= b\<close>; an end beyond the list is clipped.\<close>

definition py_slice :: "'a list \<Rightarrow> nat \<Rightarrow> nat \<Rightarrow> 'a list" where
  "py_slice xs a b = take (b - a) (drop a xs)"

text \<open>\<open>s.startswith(prefix)\<close>.\<close>

definition startswith :: "string \<Rightarrow> string \<Rightarrow> bool" where
  "startswith s pre = (take (length pre) s = pre)"

text \<open>\<open>sub in s\<close> on strings.\<close>

fun py_in :: "string \<Rightarrow> string \<Rightarrow> bool" where
  "py_in sub [] = (sub = [])"
| "py_in sub (c # cs) = (take (length sub) (c # cs) = sub \<or> py_in sub cs)"

text \<open>\<open>re.findall(r"\S+", text)\<close>: the maximal runs of non-space characters, in order.\<close>

function findall_nonspace :: "string \<Rightarrow> string list" where
  "findall_nonspace [] = []"
| "findall_nonspace (c # cs) =
     (if is_space c then findall_nonspace cs
      else (c # takeWhile (\<lambda>x. \<not> is_space x) cs)
             # findall_nonspace (dropWhile (\<lambda>x. \<not> is_space x) cs))"
  by pat_completeness auto
termination
  by (relation "measure length") (auto simp: less_Suc_eq_le length_dropWhile_le)

text \<open>
  \<open>str.splitlines()\<close>: the lines without their boundaries; a final boundary opens no
  further line.
\<close>

fun splitlines :: "string \<Rightarrow> string list" where
  "splitlines [] = []"
| "splitlines [c] = (if is_linebreak c then [[]] else [[c]])"
| "splitlines (c # d # cs) =
     (if c = CHR 0x0D \<and> d = CHR 0x0A then [] # splitlines cs
      else if is_linebreak c then [] # splitlines (d # cs)
      else (case splitlines (d # cs) of
              [] \<Rightarrow> [[c]]
            | l # ls \<Rightarrow> (c # l) # ls))"

text \<open>\<open>str(n)\<close> for \<open>n >= 0\<close>, and \<open>format(n, "05d")\<close>: the sign, then zeros up to width 5.\<close>

definition digit_char :: "nat \<Rightarrow> char" where
  "digit_char d = char_of (48 + d)"

fun str_nat :: "nat \<Rightarrow> string" where
  "str_nat n = (if n < 10 then [digit_char n] else str_nat (n div 10) @ [digit_char (n mod 10)])"

declare str_nat.simps [simp del]

definition zfill :: "nat \<Rightarrow> string \<Rightarrow> string" where
  "zfill w s = replicate (w - length s) (CHR ''0'') @ s"

definition format_05d :: "int \<Rightarrow> string" where
  "format_05d n =
     (if n < 0 then CHR ''-'' # zfill 4 (str_nat (nat (- n))) else zfill 5 (str_nat (nat n)))"

text \<open>How an f-string renders the result of \<open>dict.get\<close>: the string, or \<open>None\<close>.\<close>

definition fmt_opt :: "string option \<Rightarrow> string" where
  "fmt_opt v = (case v of None \<Rightarrow> ''None'' | Some s \<Rightarrow> s)"

text \<open>\<open>os.path.basename\<close> on a POSIX path.\<close>

definition basename :: "string \<Rightarrow> string" where
  "basename p = rev (takeWhile (\<lambda>c. c \<noteq> CHR ''/'') (rev p))"

text \<open>What \<open>findall_nonspace\<close> returns: non-empty words without a space character.\<close>

definition good_word :: "string \<Rightarrow> bool" where
  "good_word w = (w \<noteq> [] \<and> (\<forall>c \<in> set w. \<not> is_space c))"


section \<open>\<open>retrieval.py\<close>\<close>

text \<open>
  \<open>min(xs, key=f)\<close>: the first element whose key is minimal; \<open>ValueError\<close> on an empty
  sequence.
\<close>

fun py_min_from :: "('a \<Rightarrow> real) \<Rightarrow> 'a \<Rightarrow> 'a list \<Rightarrow> 'a" where
  "py_min_from key best [] = best"
| "py_min_from key best (x # xs) = py_min_from key (if key x < key best then x else best) xs"

definition py_min :: "('a \<Rightarrow> real) \<Rightarrow> 'a list \<Rightarrow> error + 'a" where
  "py_min key xs =
     (case xs of
        [] \<Rightarrow> Inl (ValueError ''min() arg is an empty sequence'')
      | x # rest \<Rightarrow> Inr (py_min_from key x rest))"

text \<open>
  The \<open>Retriever\<close> object. The tokenizer and the index are external: \<open>retr_tokenizer\<close> is
  \<open>tokenizer.encode\<close>, and \<open>retr_store\<close> is \<open>self.store.store\<close>, \<open>None\<close> before an index is
  built and otherwise its \<open>similarity_search_with_score\<close>.
\<close>

record Retriever =
  retr_cfg :: RAGConfig
  retr_tokenizer :: "string \<Rightarrow> nat list"
  retr_store :: "(string \<Rightarrow> int \<Rightarrow> (Document \<times> real) list) option"

definition retr_count_tokens :: "Retriever \<Rightarrow> string \<Rightarrow> int" where
  "retr_count_tokens self text = int (length (retr_tokenizer self text))"

text \<open>The threshold loop of \<open>retrieve\<close>: keep, in order, the pairs with \<open>d <= threshold\<close>.\<close>

fun threshold_loop :: "(Document \<times> real) list \<Rightarrow> real \<Rightarrow> (Document \<times> real) list
    \<Rightarrow> (Document \<times> real) list" where
  "threshold_loop [] threshold filtered = filtered"
| "threshold_loop ((doc, score) # rest) threshold filtered =
     (if score \<le> threshold
      then threshold_loop rest threshold (filtered @ [(doc, score)])
      else threshold_loop rest threshold filtered)"

definition retrieve :: "Retriever \<Rightarrow> string \<Rightarrow> int option \<Rightarrow> real option
    \<Rightarrow> error + (Document \<times> real) list" where
  "retrieve self query top_k_arg threshold_arg =
     (let k = (case top_k_arg of None \<Rightarrow> top_k (retr_cfg self) | Some v \<Rightarrow> v);
          threshold = (case threshold_arg of None \<Rightarrow> max_distance (retr_cfg self) | Some v \<Rightarrow> v);
          q_tokens = retr_count_tokens self query
      in if q_tokens > max_query_tokens (retr_cfg self)
         then Inl (ValueError ''Query too long. Please shorten your question.'')
         else (case retr_store self of
                 None \<Rightarrow> Inl (AssertionError ''Vector store not initialized'')
               | Some search \<Rightarrow>
                   (let docs_with_scores = search query k
                    in if docs_with_scores = []
                       then Inl (ValueError ''No relevant context found'')
                       else (let filtered = threshold_loop docs_with_scores threshold []
                             in if filtered = [] \<and> docs_with_scores \<noteq> []
                                then (case py_min snd docs_with_scores of
                                        Inl e \<Rightarrow> Inl e
                                      | Inr (best_doc, best_score) \<Rightarrow> Inr [(best_doc, best_score)])
                                else Inr filtered))))"

text \<open>A small index used to exercise the retriever.\<close>

definition demo_doc :: "string \<Rightarrow> string \<Rightarrow> Document" where
  "demo_doc cid body = \<lparr> page_content = body, metadata = [(''chunk_id'', cid)] \<rparr>"

definition demo_retriever :: Retriever where
  "demo_retriever =
     \<lparr> retr_cfg = default_config,
       retr_tokenizer = map of_char,
       retr_store = Some (\<lambda>q k. [(demo_doc ''chunk-00001'' ''alpha'', 2),
                                   (demo_doc ''chunk-00002'' ''beta'', 3 / 2),
                                   (demo_doc ''chunk-00003'' ''gamma'', 3 / 2)]) \<rparr>"

section \<open>\<open>chunking.py\<close>\<close>

text \<open>
  \<open>range(0, stop, step)\<close> for \<open>stop >= 0\<close>: \<open>ValueError\<close> on a zero step, empty on a
  negative one, otherwise \<open>0, step, 2*step, ...\<close> below \<open>stop\<close>.
\<close>

definition py_range0 :: "nat \<Rightarrow> int \<Rightarrow> error + nat list" where
  "py_range0 stop step =
     (if step = 0 then Inl (ValueError ''range() arg 3 must not be zero'')
      else if step < 0 then Inr []
      else Inr (map (\<lambda>i. i * nat step) [0..<(stop + nat step - 1) div nat step]))"

text \<open>
  The \<open>for start in range(...)\<close> loop of \<open>_chunk_text\<close> over the remaining start indices:
  \<open>continue\<close> goes on with the next start without reaching the \<open>break\<close> test, \<open>break\<close>
  returns the chunks collected so far.
\<close>

fun window_loop :: "string list \<Rightarrow> nat \<Rightarrow> nat list \<Rightarrow> string list \<Rightarrow> string list" where
  "window_loop words sz [] chunks = chunks"
| "window_loop words sz (start # rest) chunks =
     (let end = min (start + sz) (length words);
          chunk_text = strip (py_join '' '' (py_slice words start end))
      in if chunk_text = [] then window_loop words sz rest chunks
         else if chunk_text \<in> {''[CLS]'', ''[SEP]'', ''[CLS] [SEP]''}
           then window_loop words sz rest chunks
         else if end = length words then chunks @ [chunk_text]
         else window_loop words sz rest (chunks @ [chunk_text]))"

text \<open>The clamped window parameters of \<open>_chunk_text\<close>.\<close>

definition chunk_size :: "RAGConfig \<Rightarrow> int" where
  "chunk_size cfg = max (chunk_size_tokens cfg) 1"

definition chunk_overlap :: "RAGConfig \<Rightarrow> int" where
  "chunk_overlap cfg = max (min (chunk_overlap_tokens cfg) (chunk_size cfg - 1)) 0"

definition chunk_step :: "RAGConfig \<Rightarrow> int" where
  "chunk_step cfg = max (chunk_size cfg - chunk_overlap cfg) 1"

text \<open>\<open>TokenChunker._chunk_text\<close>.\<close>

definition chunk_text :: "RAGConfig \<Rightarrow> string \<Rightarrow> error + string list" where
  "chunk_text cfg text =
     (let words = findall_nonspace text
      in if words = [] then Inr []
         else (let size = chunk_size cfg;
                   step = chunk_step cfg
               in case py_range0 (length words) step of
                    Inl e \<Rightarrow> Inl e
                  | Inr starts \<Rightarrow> Inr (window_loop words (nat size) starts [])))"

text \<open>
  \<open>TokenChunker.chunk_pages\<close>: the inner loop over the chunks of one section, the outer loop
  over the sections; the state is the list of documents and \<open>chunk_counter\<close>.
\<close>

fun emit_chunks :: "string \<Rightarrow> string \<Rightarrow> string \<Rightarrow> string list \<Rightarrow> Document list \<times> int
    \<Rightarrow> Document list \<times> int" where
  "emit_chunks sec_id source_file parsing_method [] (docs, chunk_counter) = (docs, chunk_counter)"
| "emit_chunks sec_id source_file parsing_method (pc # pcs) (docs, chunk_counter) =
     (let chunk_counter' = chunk_counter + 1;
          chunk_id = ''chunk-'' @ format_05d chunk_counter';
          meta = [(''chunk_id'', chunk_id),
                  (''section_or_page'', sec_id),
                  (''source_file'', source_file),
                  (''parsing_method'', parsing_method)]
      in emit_chunks sec_id source_file parsing_method pcs
           (docs @ [\<lparr> page_content = pc, metadata = meta \<rparr>], chunk_counter'))"

fun chunk_pages_loop :: "RAGConfig \<Rightarrow> string \<Rightarrow> string \<Rightarrow> (string \<times> string) list
    \<Rightarrow> Document list \<times> int \<Rightarrow> error + Document list \<times> int" where
  "chunk_pages_loop cfg source_file parsing_method [] st = Inr st"
| "chunk_pages_loop cfg source_file parsing_method ((sec_id, text) # rest) st =
     (case chunk_text cfg text of
        Inl e \<Rightarrow> Inl e
      | Inr page_chunks \<Rightarrow>
          chunk_pages_loop cfg source_file parsing_method rest
            (emit_chunks sec_id source_file parsing_method page_chunks st))"

definition chunk_pages :: "RAGConfig \<Rightarrow> (string \<times> string) list \<Rightarrow> string \<Rightarrow> string
    \<Rightarrow> error + Document list" where
  "chunk_pages cfg cleaned_pages source_file parsing_method =
     (case chunk_pages_loop cfg source_file parsing_method cleaned_pages ([], 0) of
        Inl e \<Rightarrow> Inl e
      | Inr (docs, chunk_counter) \<Rightarrow> Inr docs)"

text \<open>
  The windows as the specification describes them: window \<open>i\<close> starts at word \<open>i * step\<close>
  and holds up to \<open>size\<close> words; the last window is the first one whose end reaches the end
  of the word sequence. \<open>window_count\<close> is the number of windows of a sequence of \<open>n\<close> words.
\<close>

definition window_count :: "nat \<Rightarrow> nat \<Rightarrow> nat \<Rightarrow> nat" where
  "window_count n sz st =
     (if n = 0 then 0 else if n \<le> sz then 1 else (n - sz + st - 1) div st + 1)"

definition spec_windows :: "'a list \<Rightarrow> nat \<Rightarrow> nat \<Rightarrow> 'a list list" where
  "spec_windows ws sz st =
     map (\<lambda>i. take sz (drop (i * st) ws)) [0..<window_count (length ws) sz st]"

text \<open>The placeholder artifacts \<open>_chunk_text\<close> discards, and the text of the window at a start.\<close>

definition placeholders :: "string set" where
  "placeholders = {''[CLS]'', ''[SEP]'', ''[CLS] [SEP]''}"

definition kept :: "string \<Rightarrow> bool" where
  "kept c = (c \<noteq> [] \<and> c \<notin> placeholders)"

definition window_text :: "string list \<Rightarrow> nat \<Rightarrow> nat \<Rightarrow> string" where
  "window_text words sz start =
     strip (py_join '' '' (py_slice words start (min (start + sz) (length words))))"

text \<open>
  The reconstruction of the specification: the first \<open>step\<close> words of every window but the
  last, then all words of the last window.
\<close>

definition reconstruct :: "nat \<Rightarrow> 'a list list \<Rightarrow> 'a list" where
  "reconstruct st windows =
     (if windows = [] then [] else concat (map (take st) (butlast windows)) @ last windows)"

text \<open>
  The chunks of a document as the specification orders them: section by section, and within
  a section window by window; the document of the chunk with ordinal \<open>k\<close>; and the chunk ids
  of a list of documents.
\<close>

definition section_chunks :: "RAGConfig \<Rightarrow> (string \<times> string) list \<Rightarrow> (string \<times> string) list" where
  "section_chunks cfg pages =
     concat (map (\<lambda>(sec_id, text).
                    map (\<lambda>c. (sec_id, c)) (case chunk_text cfg text of Inr cs \<Rightarrow> cs | Inl e \<Rightarrow> []))
                 pages)"

definition chunk_doc :: "string \<Rightarrow> string \<Rightarrow> nat \<Rightarrow> string \<times> string \<Rightarrow> Document" where
  "chunk_doc source_file parsing_method k sc =
     \<lparr> page_content = snd sc,
       metadata = [(''chunk_id'', ''chunk-'' @ format_05d (int k)),
                   (''section_or_page'', fst sc),
                   (''source_file'', source_file),
                   (''parsing_method'', parsing_method)] \<rparr>"

definition chunk_ids :: "Document list \<Rightarrow> string option list" where
  "chunk_ids docs = map (\<lambda>d. map_of (metadata d) ''chunk_id'') docs"

text \<open>A presentation of 100000 slides, each holding one word, after cleaning.\<close>

definition many_slides :: "(string \<times> string) list" where
  "many_slides = map (\<lambda>i. (''slide-'' @ str_nat i, ''w'')) [1..<100001]"


section \<open>\<open>generation.py\<close>\<close>

text \<open>A citation dictionary \<open>{"chunk_id": ..., "section": ..., "score": ...}\<close>.\<close>

record Citation =
  cit_chunk_id :: "string option"
  cit_section :: "string option"
  cit_score :: real

text \<open>
  The \<open>GroqGenerator\<close> object. External to the module and taken as they are: the tokenizer
  (\<open>gen_tokenizer\<close> is \<open>tokenizer.encode\<close>), the chat model (\<open>gen_invoke name messages n\<close> is
  what \<open>ChatGroq(model_name=name).invoke(messages, max_tokens=n)\<close> returns, the content of
  the response or the text of the exception raised), the prompt template
  (\<open>gen_prompt context question\<close> is \<open>prompt.format_messages\<close>) and the rendering of a float
  with four decimals (\<open>gen_format_4f\<close>).
\<close>

record GroqGenerator =
  gen_cfg :: RAGConfig
  gen_model_name :: string
  gen_api_key :: string
  gen_tokenizer :: "string \<Rightarrow> nat list"
  gen_prompt :: "string \<Rightarrow> string \<Rightarrow> (string \<times> string) list"
  gen_invoke :: "string \<Rightarrow> (string \<times> string) list \<Rightarrow> int \<Rightarrow> string + string"
  gen_format_4f :: "real \<Rightarrow> string"

definition gen_count_tokens :: "GroqGenerator \<Rightarrow> string \<Rightarrow> int" where
  "gen_count_tokens self text = int (length (gen_tokenizer self text))"

text \<open>The segment and the citation \<open>_build_context\<close> makes of one retrieved pair.\<close>

definition segment_of :: "GroqGenerator \<Rightarrow> Document \<times> real \<Rightarrow> string" where
  "segment_of self ds =
     (let chunk_id = map_of (metadata (fst ds)) ''chunk_id'';
          section = map_of (metadata (fst ds)) ''section_or_page'';
          header = ''[chunk_id='' @ fmt_opt chunk_id @ '' | section='' @ fmt_opt section
                     @ '' | score='' @ gen_format_4f self (snd ds) @ '']'';
          body = strip (page_content (fst ds))
      in header @ [CHR 0x0A] @ body)"

definition citation_of :: "Document \<times> real \<Rightarrow> Citation" where
  "citation_of ds =
     \<lparr> cit_chunk_id = map_of (metadata (fst ds)) ''chunk_id'',
       cit_section = map_of (metadata (fst ds)) ''section_or_page'',
       cit_score = snd ds \<rparr>"

text \<open>
  The loop of \<open>_build_context\<close>; the state is \<open>parts\<close>, \<open>citations\<close> and \<open>total_tokens\<close>, and
  \<open>break\<close> returns it.
\<close>

fun build_context_loop :: "GroqGenerator \<Rightarrow> (Document \<times> real) list
    \<Rightarrow> string list \<times> Citation list \<times> int \<Rightarrow> string list \<times> Citation list \<times> int" where
  "build_context_loop self [] st = st"
| "build_context_loop self (ds # rest) (parts, citations, total_tokens) =
     (let segment = segment_of self ds;
          seg_tokens = gen_count_tokens self segment
      in if total_tokens + seg_tokens > max_context_tokens (gen_cfg self)
         then (parts, citations, total_tokens)
         else build_context_loop self rest
                (parts @ [segment], citations @ [citation_of ds], total_tokens + seg_tokens))"

definition build_context :: "GroqGenerator \<Rightarrow> (Document \<times> real) list \<Rightarrow> string \<times> Citation list" where
  "build_context self docs_with_scores =
     (case build_context_loop self docs_with_scores ([], [], 0) of
        (parts, citations, total_tokens) \<Rightarrow> (py_join [CHR 0x0A, CHR 0x0A] parts, citations))"

text \<open>
  The model call of \<open>generate\<close> with its fallback: on an exception whose text names a
  decommissioned model the fallback models are tried in order, each becoming
  \<open>self.model_name\<close>; the first that answers ends the loop, and when none does, or on any
  other exception, the first exception is raised again.
\<close>

fun fallback_loop :: "GroqGenerator \<Rightarrow> (string \<times> string) list \<Rightarrow> string \<Rightarrow> string list
    \<Rightarrow> (error + string) \<times> GroqGenerator" where
  "fallback_loop self messages msg [] = (Inl (LLMError msg), self)"
| "fallback_loop self messages msg (candidate # rest) =
     (let self' = self\<lparr>gen_model_name := candidate\<rparr>
      in case gen_invoke self' candidate messages (max_output_tokens (gen_cfg self')) of
           Inr resp \<Rightarrow> (Inr resp, self')
         | Inl e \<Rightarrow> fallback_loop self' messages msg rest)"

definition invoke_model :: "GroqGenerator \<Rightarrow> (string \<times> string) list
    \<Rightarrow> (error + string) \<times> GroqGenerator" where
  "invoke_model self messages =
     (case gen_invoke self (gen_model_name self) messages (max_output_tokens (gen_cfg self)) of
        Inr resp \<Rightarrow> (Inr resp, self)
      | Inl msg \<Rightarrow>
          if py_in ''model_decommissioned'' msg \<or> py_in ''has been decommissioned'' msg
          then fallback_loop self messages msg (groq_fallbacks (gen_cfg self))
          else (Inl (LLMError msg), self))"

text \<open>\<open>GroqGenerator.generate\<close>: the result and the generator after the call.\<close>

definition generate :: "GroqGenerator \<Rightarrow> string \<Rightarrow> (Document \<times> real) list
    \<Rightarrow> (error + string \<times> Citation list) \<times> GroqGenerator" where
  "generate self question docs_with_scores =
     (if docs_with_scores = []
      then (Inr (''I cannot answer based on the provided document.'', []), self)
      else (let q_tokens = gen_count_tokens self question
            in if q_tokens > max_query_tokens (gen_cfg self)
               then (Inr (''Your question is too long. Please shorten it.'', []), self)
               else (case build_context self docs_with_scores of
                       (context, citations) \<Rightarrow>
                         if context = []
                         then (Inr (''I cannot answer based on the provided document.'', []), self)
                         else (let messages = gen_prompt self context question
                               in case invoke_model self messages of
                                    (Inl e, self') \<Rightarrow> (Inl e, self')
                                  | (Inr resp, self') \<Rightarrow>
                                      (let answer = strip resp;
                                           citation_items =
                                             map (\<lambda>c. fmt_opt (cit_chunk_id c) @ '' (''
                                                        @ fmt_opt (cit_section c) @ '')'') citations;
                                           suffix = (if citation_items \<noteq> []
                                                     then '' ['' @ py_join '' ; '' citation_items @ '']''
                                                     else '' [none]'')
                                       in (Inr (answer @ suffix, citations), self'))))))"

text \<open>A generator with a tokenizer of one token per character, used to exercise the module.\<close>

definition demo_generator :: "int \<Rightarrow> GroqGenerator" where
  "demo_generator budget =
     \<lparr> gen_cfg = default_config\<lparr>max_context_tokens := budget\<rparr>,
       gen_model_name = ''llama-3.3-70b-versatile'',
       gen_api_key = ''key'',
       gen_tokenizer = map of_char,
       gen_prompt = (\<lambda>context question. [(''system'', context), (''human'', question)]),
       gen_invoke = (\<lambda>name messages n. Inr ''An answer.''),
       gen_format_4f = (\<lambda>score. ''0.5000'') \<rparr>"

text \<open>The token count of the segments of a list of retrieved pairs.\<close>

definition segments_tokens :: "GroqGenerator \<Rightarrow> (Document \<times> real) list \<Rightarrow> int" where
  "segments_tokens self dss = sum_list (map (\<lambda>ds. gen_count_tokens self (segment_of self ds)) dss)"

text \<open>Three retrieved chunks, best first: the second is long, the third short.\<close>

definition demo_results :: "(Document \<times> real) list" where
  "demo_results =
     [(\<lparr> page_content = ''alpha'', metadata = [(''chunk_id'', ''c1''), (''section_or_page'', ''p1'')] \<rparr>, 1 / 2),
      (\<lparr> page_content = ''a much longer chunk of text'',
          metadata = [(''chunk_id'', ''c2''), (''section_or_page'', ''p1'')] \<rparr>, 1 / 2),
      (\<lparr> page_content = ''beta'', metadata = [(''chunk_id'', ''c3''), (''section_or_page'', ''p2'')] \<rparr>, 1 / 2)]"


section \<open>\<open>parsing.py\<close>\<close>

record ParsedDocument =
  source_path :: string
  source_filename :: string
  sections_text :: "(string \<times> string) list"
  parsing_method :: string
  page_count :: int

text \<open>
  What the module reads from outside, as functions of the path or text; each reader that can
  raise returns a result. \<open>fitz_pages\<close> is the text of each page of \<open>fitz.open(path)\<close>
  (\<open>None\<close> where \<open>get_text\<close> gives nothing); \<open>docx_paragraphs\<close> the paragraph texts;
  \<open>read_text_fallback\<close> the decoded bytes of the file; \<open>html_get_text\<close> is
  \<open>BeautifulSoup(html, "lxml").get_text(separator="\n")\<close>; \<open>csv_rows\<close> the rows of the CSV
  reader; \<open>json_pretty\<close> is \<open>json.dumps(json.loads(s), ensure_ascii=False, indent=2)\<close>;
  \<open>pptx_slides\<close> lists for each slide its shapes, a shape being \<open>None\<close> when it has no \<open>text\<close>
  attribute and otherwise the value of that attribute; \<open>groq_api_key\<close> is the environment
  variable; \<open>tok_encode\<close> and \<open>tok_decode\<close> are the tokenizer of a model name; \<open>llm_invoke\<close>
  is the chat model's answer to one system message within a token limit.
\<close>

record Readers =
  fitz_pages :: "string \<Rightarrow> error + string option list"
  docx_paragraphs :: "string \<Rightarrow> error + string list"
  read_text_fallback :: "string \<Rightarrow> error + string"
  html_get_text :: "string \<Rightarrow> string"
  csv_rows :: "string \<Rightarrow> error + string list list"
  json_pretty :: "string \<Rightarrow> error + string"
  pptx_slides :: "string \<Rightarrow> error + string option option list list"
  groq_api_key :: "string option"
  tok_encode :: "string \<Rightarrow> string \<Rightarrow> nat list"
  tok_decode :: "string \<Rightarrow> nat list \<Rightarrow> string"
  llm_invoke :: "string \<Rightarrow> string \<Rightarrow> int \<Rightarrow> error + string"

text \<open>\<open>str(n)\<close> of an integer, \<open>xs[:n]\<close>, and \<open>str.upper\<close> on the ASCII letters.\<close>

definition str_int :: "int \<Rightarrow> string" where
  "str_int n = (if n < 0 then CHR ''-'' # str_nat (nat (- n)) else str_nat (nat n))"

definition py_take :: "'a list \<Rightarrow> int \<Rightarrow> 'a list" where
  "py_take xs n = (if 0 \<le> n then take (nat n) xs else take (nat (int (length xs) + n)) xs)"

definition upper_char :: "char \<Rightarrow> char" where
  "upper_char c =
     (if 97 \<le> (of_char c :: nat) \<and> (of_char c :: nat) \<le> 122 then char_of (of_char c - 32 :: nat) else c)"

definition upper :: "string \<Rightarrow> string" where
  "upper s = map upper_char s"

definition single_section :: "string \<Rightarrow> string \<Rightarrow> ParsedDocument" where
  "single_section path txt =
     \<lparr> source_path = path, source_filename = basename path,
       sections_text = [(''section-1'', txt)], parsing_method = ''deterministic'', page_count = 1 \<rparr>"

definition parse_pdf :: "Readers \<Rightarrow> string \<Rightarrow> RAGConfig \<Rightarrow> error + ParsedDocument" where
  "parse_pdf env path cfg =
     (case fitz_pages env path of
        Inl e \<Rightarrow> Inl e
      | Inr pages \<Rightarrow>
          (let total_pages = int (length pages)
           in if total_pages > max_pages_pdf cfg
              then Inl (ValueError (''PDF has '' @ str_int total_pages @ '' pages; limit is ''
                                     @ str_int (max_pages_pdf cfg)))
              else Inr \<lparr> source_path = path, source_filename = basename path,
                         sections_text =
                           map (\<lambda>(i, page). (''page-'' @ str_nat (i + 1),
                                               case page of None \<Rightarrow> [] | Some txt \<Rightarrow> txt))
                               (enumerate 0 pages),
                         parsing_method = ''deterministic'', page_count = total_pages \<rparr>))"

definition parse_docx :: "Readers \<Rightarrow> string \<Rightarrow> error + ParsedDocument" where
  "parse_docx env path =
     (case docx_paragraphs env path of
        Inl e \<Rightarrow> Inl e
      | Inr paragraphs \<Rightarrow> Inr (single_section path (py_join [CHR 0x0A] paragraphs)))"

definition parse_txt :: "Readers \<Rightarrow> string \<Rightarrow> error + ParsedDocument" where
  "parse_txt env path =
     (case read_text_fallback env path of
        Inl e \<Rightarrow> Inl e
      | Inr txt \<Rightarrow> Inr (single_section path txt))"

definition parse_html :: "Readers \<Rightarrow> string \<Rightarrow> error + ParsedDocument" where
  "parse_html env path =
     (case read_text_fallback env path of
        Inl e \<Rightarrow> Inl e
      | Inr html \<Rightarrow> Inr (single_section path (html_get_text env html)))"

definition parse_csv :: "Readers \<Rightarrow> string \<Rightarrow> error + ParsedDocument" where
  "parse_csv env path =
     (case csv_rows env path of
        Inl e \<Rightarrow> Inl e
      | Inr rows \<Rightarrow> Inr (single_section path (py_join [CHR 0x0A] (map (py_join '', '') rows))))"

definition parse_json :: "Readers \<Rightarrow> string \<Rightarrow> error + ParsedDocument" where
  "parse_json env path =
     (case read_text_fallback env path of
        Inl e \<Rightarrow> Inl e
      | Inr raw \<Rightarrow>
          (case json_pretty env raw of
             Inl e \<Rightarrow> Inl e
           | Inr txt \<Rightarrow> Inr (single_section path txt)))"

definition parse_md_or_code :: "Readers \<Rightarrow> string \<Rightarrow> error + ParsedDocument" where
  "parse_md_or_code env path =
     (case read_text_fallback env path of
        Inl e \<Rightarrow> Inl e
      | Inr txt \<Rightarrow> Inr (single_section path txt))"

text \<open>The texts collected from the shapes of one slide: the non-empty \<open>text\<close> attributes.\<close>

fun slide_texts :: "string option option list \<Rightarrow> string list \<Rightarrow> string list" where
  "slide_texts [] texts = texts"
| "slide_texts (shp # shapes) texts =
     (case shp of
        None \<Rightarrow> slide_texts shapes texts
      | Some attr \<Rightarrow>
          (let t = (case attr of None \<Rightarrow> [] | Some v \<Rightarrow> v)
           in if t \<noteq> [] then slide_texts shapes (texts @ [t]) else slide_texts shapes texts))"

fun pptx_sections :: "nat \<Rightarrow> string option option list list \<Rightarrow> (string \<times> string) list
    \<Rightarrow> (string \<times> string) list" where
  "pptx_sections idx [] sections = sections"
| "pptx_sections idx (slide # slides) sections =
     pptx_sections (idx + 1) slides
       (sections @ [(''slide-'' @ str_nat idx, py_join [CHR 0x0A] (slide_texts slide []))])"

definition parse_pptx :: "Readers \<Rightarrow> string \<Rightarrow> error + ParsedDocument" where
  "parse_pptx env path =
     (case pptx_slides env path of
        Inl e \<Rightarrow> Inl e
      | Inr slides \<Rightarrow>
          (let sections = pptx_sections 1 slides []
           in Inr \<lparr> source_path = path, source_filename = basename path,
                     sections_text = sections, parsing_method = ''deterministic'',
                     page_count = int (length sections) \<rparr>))"

definition llm_assisted_parse :: "Readers \<Rightarrow> string \<Rightarrow> RAGConfig \<Rightarrow> error + ParsedDocument" where
  "llm_assisted_parse env path cfg =
     (case groq_api_key env of
        None \<Rightarrow> Inl (EnvironmentError ''GROQ_API_KEY is required for LLM-assisted parsing'')
      | Some api_key \<Rightarrow>
          if api_key = [] then Inl (EnvironmentError ''GROQ_API_KEY is required for LLM-assisted parsing'')
          else (case read_text_fallback env path of
                  Inl e \<Rightarrow> Inl e
                | Inr content \<Rightarrow>
                    (let ids = tok_encode env (model_name cfg) content;
                         ids' = (if int (length ids) > max_context_tokens cfg
                                 then py_take ids (max_context_tokens cfg) else ids);
                         truncated = tok_decode env (model_name cfg) ids';
                         prompt =
                           ''You are a strict parser. Extract only readable text present in the file content below.''
                           @ [CHR 0x0A] @ ''- Do not add or invent text.'' @ [CHR 0x0A]
                           @ ''- If the content is not interpretable, respond with exactly: UNPARSEABLE''
                           @ [CHR 0x0A] @ ''Content:'' @ [CHR 0x0A] @ truncated
                     in case llm_invoke env (groq_model cfg) prompt (max_output_tokens cfg) of
                          Inl e \<Rightarrow> Inl e
                        | Inr resp \<Rightarrow>
                            (let parsed = strip resp
                             in if strip (upper parsed) = ''UNPARSEABLE'' \<or> parsed = []
                                then Inl (ValueError ''File cannot be meaningfully interpreted'')
                                else Inr \<lparr> source_path = path, source_filename = basename path,
                                           sections_text = [(''section-1'', parsed)],
                                           parsing_method = ''llm-assisted'', page_count = 1 \<rparr>))))"

text \<open>\<open>parse_file\<close>: the handler is chosen by the extension; an exception is logged and raised again.\<close>

definition parse_file :: "Readers \<Rightarrow> string \<Rightarrow> string \<Rightarrow> RAGConfig \<Rightarrow> error + ParsedDocument" where
  "parse_file env path ext cfg =
     (if ext = ''.pdf'' then parse_pdf env path cfg
      else if ext = ''.docx'' then parse_docx env path
      else if ext \<in> {''.txt'', ''.log''} then parse_txt env path
      else if ext \<in> {''.html'', ''.htm''} then parse_html env path
      else if ext = ''.csv'' then parse_csv env path
      else if ext = ''.json'' then parse_json env path
      else if ext \<in> {''.md'', ''.py'', ''.js'', ''.ts'', ''.java'', ''.c'', ''.cpp'', ''.go'', ''.rs''}
        then parse_md_or_code env path
      else if ext = ''.pptx'' then parse_pptx env path
      else llm_assisted_parse env path cfg)"

text \<open>
  Readers over a file system that holds one presentation with no slides, \<open>deck.pptx\<close>, and
  one PDF document with no pages, \<open>empty.pdf\<close>.
\<close>

definition no_slides_readers :: Readers where
  "no_slides_readers =
     \<lparr> fitz_pages = (\<lambda>p. if p = ''empty.pdf'' then Inr [] else Inl (ValueError ''cannot open'')),
       docx_paragraphs = (\<lambda>p. Inl (ValueError ''cannot open'')),
       read_text_fallback = (\<lambda>p. Inl (ValueError ''cannot open'')),
       html_get_text = (\<lambda>s. s),
       csv_rows = (\<lambda>p. Inl (ValueError ''cannot open'')),
       json_pretty = (\<lambda>s. Inl (ValueError ''not JSON'')),
       pptx_slides = (\<lambda>p. if p = ''deck.pptx'' then Inr [] else Inl (ValueError ''cannot open'')),
       groq_api_key = None,
       tok_encode = (\<lambda>m. map of_char),
       tok_decode = (\<lambda>m. map char_of),
       llm_invoke = (\<lambda>m p n. Inl (LLMError ''no model'')) \<rparr>"


section \<open>\<open>cleaning.py\<close>\<close>

text \<open>
  The regular expressions of the module, each as a matcher on the whole string.
  \<open>match_page_of\<close> is \<open>re.fullmatch(r"[Pp]age\s*\d+(\s*/\s*\d+)?", s)\<close>, with \<open>match_page_tail\<close>
  for the part after \<open>[Pp]age\<close>: neighbouring parts of the pattern match disjoint character
  classes, so the greedy reading is the only one.
  \<open>match_digits\<close> is \<open>re.fullmatch(r"\d+", s)\<close>, and \<open>match_rule\<close> is the decorative rule
  \<open>re.fullmatch(r"[-...]{3,}", l)\<close> of hyphens, underscores and equals signs (the en and em
  dashes of the source's class lie above code point 255).
\<close>

definition match_digits :: "string \<Rightarrow> bool" where
  "match_digits s = (s \<noteq> [] \<and> list_all is_digit s)"

definition match_page_tail :: "string \<Rightarrow> bool" where
  "match_page_tail r1 =
     (let r2 = dropWhile is_space r1;
          r3 = dropWhile is_digit r2
      in takeWhile is_digit r2 \<noteq> [] \<and>
         (r3 = [] \<or>
          (case dropWhile is_space r3 of
             [] \<Rightarrow> False
           | c # r4 \<Rightarrow> c = CHR ''/'' \<and> match_digits (dropWhile is_space r4))))"

definition match_page_of :: "string \<Rightarrow> bool" where
  "match_page_of s =
     (case s of
        p # a # g # e # r1 \<Rightarrow>
          (p = CHR ''P'' \<or> p = CHR ''p'') \<and> a = CHR ''a'' \<and> g = CHR ''g'' \<and> e = CHR ''e''
          \<and> match_page_tail r1
      | _ \<Rightarrow> False)"

definition match_rule :: "string \<Rightarrow> bool" where
  "match_rule l = (3 \<le> length l \<and> list_all (\<lambda>c. c = CHR ''-'' \<or> c = CHR ''_'' \<or> c = CHR ''='') l)"

definition is_page_number :: "string \<Rightarrow> bool" where
  "is_page_number line =
     (let s = strip line
      in if match_page_of s then True
         else if match_digits s then True
         else False)"

text \<open>
  \<open>re.sub(r"[ \t]+", " ", text)\<close> and \<open>re.sub(r"\n{3,}", "\n\n", text)\<close>, the two substitutions
  of \<open>_normalize_spaces\<close>.
\<close>

definition is_blank :: "char \<Rightarrow> bool" where
  "is_blank c = (c = CHR '' '' \<or> c = CHR 0x09)"

function collapse_blanks :: "string \<Rightarrow> string" where
  "collapse_blanks [] = []"
| "collapse_blanks (c # cs) =
     (if is_blank c then CHR '' '' # collapse_blanks (dropWhile is_blank cs)
      else c # collapse_blanks cs)"
  by pat_completeness auto
termination
  by (relation "measure length") (auto simp: less_Suc_eq_le length_dropWhile_le)

function squeeze_newlines :: "string \<Rightarrow> string" where
  "squeeze_newlines [] = []"
| "squeeze_newlines (c # cs) =
     (if c = CHR 0x0A
      then (if 2 \<le> length (takeWhile (\<lambda>x. x = CHR 0x0A) cs)
            then [CHR 0x0A, CHR 0x0A]
            else CHR 0x0A # takeWhile (\<lambda>x. x = CHR 0x0A) cs)
           @ squeeze_newlines (dropWhile (\<lambda>x. x = CHR 0x0A) cs)
      else c # squeeze_newlines cs)"
  by pat_completeness auto
termination
  by (relation "measure length") (auto simp: less_Suc_eq_le length_dropWhile_le)

definition normalize_spaces :: "string \<Rightarrow> string" where
  "normalize_spaces text = strip (squeeze_newlines (collapse_blanks text))"

text \<open>\<open>d.get(k, 0)\<close> on a dictionary kept as an association list in insertion order.\<close>

definition dict_get0 :: "(string \<times> int) list \<Rightarrow> string \<Rightarrow> int" where
  "dict_get0 d k = (case map_of d k of None \<Rightarrow> 0 | Some v \<Rightarrow> v)"

text \<open>
  The first loop of \<open>clean_text\<close>: the state is \<open>header_candidates\<close> and \<open>footer_candidates\<close>.
\<close>

fun count_candidates :: "(string \<times> string) list \<Rightarrow> (string \<times> int) list \<times> (string \<times> int) list
    \<Rightarrow> (string \<times> int) list \<times> (string \<times> int) list" where
  "count_candidates [] st = st"
| "count_candidates ((sec_id, text) # rest) (header_candidates, footer_candidates) =
     (let lines = splitlines text
      in if lines \<noteq> []
         then (let header = strip (hd lines);
                   header_candidates' =
                     AList.update header (dict_get0 header_candidates header + 1) header_candidates;
                   footer = strip (last lines);
                   footer_candidates' =
                     AList.update footer (dict_get0 footer_candidates footer + 1) footer_candidates
               in count_candidates rest (header_candidates', footer_candidates'))
         else count_candidates rest (header_candidates, footer_candidates))"

text \<open>The set comprehension \<open>{h for h, c in d.items() if c >= max(2, n // 5)}\<close>.\<close>

definition common_values :: "(string \<times> int) list \<Rightarrow> nat \<Rightarrow> string set" where
  "common_values d n = set (map fst (filter (\<lambda>(h, c). c \<ge> max 2 (int n div 5)) d))"

text \<open>The inner loop of the second pass over the raw lines of one section.\<close>

fun clean_lines :: "bool \<Rightarrow> string set \<Rightarrow> string set \<Rightarrow> string list \<Rightarrow> string list \<Rightarrow> string list" where
  "clean_lines paged common_headers common_footers [] lines = lines"
| "clean_lines paged common_headers common_footers (raw # rest) lines =
     (let l = strip raw
      in if l = [] then clean_lines paged common_headers common_footers rest lines
         else if paged \<and> (l \<in> common_headers \<or> l \<in> common_footers)
           then clean_lines paged common_headers common_footers rest lines
         else if paged \<and> is_page_number l
           then clean_lines paged common_headers common_footers rest lines
         else if match_rule l
           then clean_lines paged common_headers common_footers rest lines
         else clean_lines paged common_headers common_footers rest (lines @ [l]))"

fun clean_sections :: "string \<Rightarrow> string set \<Rightarrow> string set \<Rightarrow> (string \<times> string) list
    \<Rightarrow> (string \<times> string) list \<Rightarrow> (string \<times> string) list" where
  "clean_sections method common_headers common_footers [] cleaned_pages = cleaned_pages"
| "clean_sections method common_headers common_footers ((sec_id, text) # rest) cleaned_pages =
     (let lines = clean_lines (method = ''deterministic'' \<and> startswith sec_id ''page-'')
                    common_headers common_footers (splitlines text) [];
          cleaned = normalize_spaces (py_join [CHR 0x0A] lines)
      in clean_sections method common_headers common_footers rest (cleaned_pages @ [(sec_id, cleaned)]))"

definition clean_text :: "ParsedDocument \<Rightarrow> (string \<times> string) list" where
  "clean_text doc =
     (case count_candidates (sections_text doc) ([], []) of
        (header_candidates, footer_candidates) \<Rightarrow>
          (let common_headers = common_values header_candidates (length (sections_text doc));
               common_footers = common_values footer_candidates (length (sections_text doc))
           in clean_sections (parsing_method doc) common_headers common_footers
                (sections_text doc) []))"

text \<open>A document of pages and a parsing method, for exercising the cleaner.\<close>

definition pages_doc :: "string \<Rightarrow> (string \<times> string) list \<Rightarrow> ParsedDocument" where
  "pages_doc method sections =
     \<lparr> source_path = ''doc.pdf'', source_filename = ''doc.pdf'', sections_text = sections,
       parsing_method = method, page_count = int (length sections) \<rparr>"






text \<open>
  A section of paginated deterministic extraction, and the lines of a section that the
  specification keeps.
\<close>

definition paged :: "ParsedDocument \<Rightarrow> string \<Rightarrow> bool" where
  "paged doc sec_id = (parsing_method doc = ''deterministic'' \<and> startswith sec_id ''page-'')"



text \<open>The cleaner's output wrapped again as a document of the same parsing method.\<close>

definition recleaned :: "ParsedDocument \<Rightarrow> ParsedDocument" where
  "recleaned doc = doc\<lparr>sections_text := clean_text doc\<rparr>"


definition blank_first_doc :: ParsedDocument where
  "blank_first_doc = pages_doc ''deterministic''
     [(''page-1'', [CHR 0x0A] @ ''CONFIDENTIAL'' @ [CHR 0x0A] @ ''alpha''),
      (''page-2'', [CHR 0x0A] @ ''CONFIDENTIAL'' @ [CHR 0x0A] @ ''beta''),
      (''page-3'', [CHR 0x0A] @ ''CONFIDENTIAL'' @ [CHR 0x0A] @ ''gamma'')]"

definition two_headers_doc :: ParsedDocument where
  "two_headers_doc = pages_doc ''deterministic''
     [(''page-1'', ''A'' @ [CHR 0x0A] @ ''B'' @ [CHR 0x0A] @ ''x''),
      (''page-2'', ''A'' @ [CHR 0x0A] @ ''B'' @ [CHR 0x0A] @ ''y'')]"





section \<open>Facts about the string operations\<close>

lemma findall_nonspace_good: "w \<in> set (findall_nonspace s) \<Longrightarrow> good_word w"
proof (induction s rule: findall_nonspace.induct)
  case 1
  then show ?case by simp
next
  case (2 c cs)
  show ?case
  proof (cases "is_space c")
    case True
    with 2 show ?thesis by simp
  next
    case False
    from "2.prems" False
    have "w = c # takeWhile (\<lambda>x. \<not> is_space x) cs
            \<or> w \<in> set (findall_nonspace (dropWhile (\<lambda>x. \<not> is_space x) cs))"
      by simp
    then show ?thesis
    proof
      assume w: "w = c # takeWhile (\<lambda>x. \<not> is_space x) cs"
      have "\<forall>x \<in> set (takeWhile (\<lambda>x. \<not> is_space x) cs). \<not> is_space x"
        by (auto dest: set_takeWhileD)
      with False show ?thesis by (simp add: good_word_def w)
    next
      assume "w \<in> set (findall_nonspace (dropWhile (\<lambda>x. \<not> is_space x) cs))"
      with "2.IH"(2) [OF False] show ?thesis .
    qed
  qed
qed

lemma is_space_blank [simp]: "is_space (CHR '' '')"
  by (simp add: is_space_def)

lemma findall_nonspace_word_append:
  assumes "good_word w" "r = [] \<or> is_space (hd r)"
  shows "findall_nonspace (w @ r) = w # findall_nonspace r"
proof -
  from assms(1) obtain c cs where w: "w = c # cs" and c: "\<not> is_space c"
    and cs: "\<forall>x \<in> set cs. \<not> is_space x"
    by (cases w) (auto simp: good_word_def)
  have r: "takeWhile (\<lambda>x. \<not> is_space x) r = []" "dropWhile (\<lambda>x. \<not> is_space x) r = r"
    using assms(2) by (cases r; simp)+
  have tw: "takeWhile (\<lambda>x. \<not> is_space x) (cs @ r) = cs"
    using cs r(1) by (simp add: takeWhile_append2)
  have dw: "dropWhile (\<lambda>x. \<not> is_space x) (cs @ r) = r"
    using cs r(2) by (simp add: dropWhile_append2)
  show ?thesis using c by (simp add: w tw dw)
qed

lemma findall_nonspace_join:
  "\<forall>w \<in> set ws. good_word w \<Longrightarrow> findall_nonspace (py_join '' '' ws) = ws"
proof (induction ws)
  case Nil
  then show ?case by simp
next
  case (Cons x xs)
  show ?case
  proof (cases xs)
    case Nil
    with Cons.prems show ?thesis using findall_nonspace_word_append [of x "[]"] by simp
  next
    case (Cons y ys)
    have "findall_nonspace (x @ '' '' @ py_join '' '' (y # ys))
            = x # findall_nonspace ('' '' @ py_join '' '' (y # ys))"
      using Cons.prems by (intro findall_nonspace_word_append) auto
    also have "findall_nonspace ('' '' @ py_join '' '' (y # ys)) = findall_nonspace (py_join '' '' xs)"
      by (simp add: Cons)
    also have "\<dots> = xs" using Cons.IH Cons.prems by simp
    finally show ?thesis by (simp add: Cons)
  qed
qed

lemma strip_id:
  assumes "s \<noteq> []" "\<not> is_space (hd s)" "\<not> is_space (last s)"
  shows "strip s = s"
proof -
  have "rev s \<noteq> []" "\<not> is_space (hd (rev s))"
    using assms by (simp_all add: hd_rev)
  then have "dropWhile is_space (rev s) = rev s" by (cases "rev s") auto
  then have "rstrip s = s" by (simp add: rstrip_def)
  moreover have "dropWhile is_space s = s" using assms by (cases s) auto
  ultimately show ?thesis by (simp add: strip_def lstrip_def)
qed

lemma py_join_Cons: "py_join sep (x # xs) = (if xs = [] then x else x @ sep @ py_join sep xs)"
  by (cases xs) simp_all

lemma py_join_nonempty: "ws \<noteq> [] \<Longrightarrow> hd ws \<noteq> [] \<Longrightarrow> py_join sep ws \<noteq> []"
  by (cases ws) (simp_all add: py_join_Cons)

lemma hd_py_join: "ws \<noteq> [] \<Longrightarrow> hd ws \<noteq> [] \<Longrightarrow> hd (py_join sep ws) = hd (hd ws)"
  by (cases ws) (simp_all add: py_join_Cons)

lemma py_join_nonempty_last: "ws \<noteq> [] \<Longrightarrow> last ws \<noteq> [] \<Longrightarrow> py_join sep ws \<noteq> []"
  by (induction ws) (auto simp: py_join_Cons)

lemma last_py_join:
  "ws \<noteq> [] \<Longrightarrow> last ws \<noteq> [] \<Longrightarrow> last (py_join sep ws) = last (last ws)"
proof (induction ws)
  case Nil
  then show ?case by simp
next
  case (Cons x xs)
  show ?case
  proof (cases "xs = []")
    case True
    then show ?thesis by simp
  next
    case False
    with Cons.prems have l: "last xs \<noteq> []" by simp
    with False have "py_join sep xs \<noteq> []" by (rule py_join_nonempty_last)
    then show ?thesis using Cons.IH [OF False l] False by (simp add: py_join_Cons)
  qed
qed

lemma strip_py_join:
  assumes "ws \<noteq> []" "\<forall>w \<in> set ws. good_word w"
  shows "strip (py_join sep ws) = py_join sep ws" "py_join sep ws \<noteq> []"
proof -
  have h: "hd ws \<noteq> []" "\<not> is_space (hd (hd ws))"
    using assms by (cases ws; cases "hd ws"; auto simp: good_word_def)+
  have l: "last ws \<noteq> []" "\<not> is_space (last (last ws))"
  proof -
    from assms have "good_word (last ws)" by simp
    then show "last ws \<noteq> []" by (simp add: good_word_def)
    with \<open>good_word (last ws)\<close> show "\<not> is_space (last (last ws))"
      using last_in_set [of "last ws"] by (auto simp: good_word_def)
  qed
  show ne: "py_join sep ws \<noteq> []" using assms(1) h(1) by (rule py_join_nonempty)
  show "strip (py_join sep ws) = py_join sep ws"
    using ne h l assms(1) by (intro strip_id) (simp_all add: hd_py_join last_py_join)
qed

lemma linebreak_is_space: "is_linebreak c \<Longrightarrow> is_space c"
  by (auto simp: is_linebreak_def is_space_def)

lemma newline_props [simp]: "is_linebreak (CHR 0x0A)" "is_space (CHR 0x0A)"
  by (simp_all add: is_linebreak_def is_space_def)








lemma blank_not_linebreak: "is_blank c \<Longrightarrow> \<not> is_linebreak c"
  by (auto simp: is_blank_def is_linebreak_def)

lemma blank_space [simp]: "is_blank (CHR '' '')" "\<not> is_linebreak (CHR '' '')"
  by (simp_all add: is_blank_def is_linebreak_def)










lemma newline_not_blank [simp]: "\<not> is_blank (CHR 0x0A)"
  by (simp add: is_blank_def)












section \<open>Retrieval: the fallback\<close>

lemma threshold_loop_filter:
  "threshold_loop rs t acc = acc @ filter (\<lambda>p. snd p \<le> t) rs"
  by (induction rs t acc rule: threshold_loop.induct) auto

lemma py_min_from_mem: "py_min_from key b xs \<in> set (b # xs)"
  by (induction xs arbitrary: b) (auto split: if_splits)

lemma py_min_from_le_best: "key (py_min_from key b xs) \<le> key b"
proof (induction xs arbitrary: b)
  case Nil
  show ?case by simp
next
  case (Cons x xs)
  have "key (py_min_from key (if key x < key b then x else b) xs)
          \<le> key (if key x < key b then x else b)"
    by (rule Cons.IH)
  then show ?case by (auto split: if_splits)
qed

lemma py_min_from_least: "x \<in> set (b # xs) \<Longrightarrow> key (py_min_from key b xs) \<le> key x"
proof (induction xs arbitrary: b)
  case Nil
  then show ?case by simp
next
  case (Cons y ys)
  let ?b = "if key y < key b then y else b"
  from Cons.prems consider "x = b" | "x = y" | "x \<in> set ys" by auto
  then show ?case
  proof cases
    case 1
    have "key (py_min_from key ?b ys) \<le> key ?b" by (rule py_min_from_le_best)
    with 1 show ?thesis by (auto split: if_splits)
  next
    case 2
    have "key (py_min_from key ?b ys) \<le> key ?b" by (rule py_min_from_le_best)
    with 2 show ?thesis by (auto split: if_splits)
  next
    case 3
    then have "x \<in> set (?b # ys)" by simp
    then have "key (py_min_from key ?b ys) \<le> key x" by (rule Cons.IH)
    then show ?thesis by simp
  qed
qed

lemma py_min_nonempty:
  assumes "rs \<noteq> []"
  shows "\<exists>b. py_min key rs = Inr b \<and> b \<in> set rs \<and> (\<forall>r \<in> set rs. key b \<le> key r)"
proof -
  from assms obtain x rest where rs: "rs = x # rest" by (cases rs) auto
  have "py_min key rs = Inr (py_min_from key x rest)" by (simp add: py_min_def rs)
  moreover have "py_min_from key x rest \<in> set rs" using py_min_from_mem [of key x rest] by (simp add: rs)
  moreover have "\<forall>r \<in> set rs. key (py_min_from key x rest) \<le> key r"
    using py_min_from_least [of _ x rest key] by (simp add: rs)
  ultimately show ?thesis by blast
qed

text \<open>
  Claim C1. For a query within the query-token limit and a built index whose search returns a
  non-empty list, \<open>retrieve\<close> returns a non-empty list; and when every returned distance
  exceeds the threshold it returns exactly one pair, a member of the search results whose
  distance is minimal among them.
\<close>

theorem retrieve_fallback:
  assumes tokens: "retr_count_tokens self query \<le> max_query_tokens (retr_cfg self)"
    and store: "retr_store self = Some search"
    and rs: "search query (case top_k_arg of None \<Rightarrow> top_k (retr_cfg self) | Some v \<Rightarrow> v) = rs"
    and nonempty: "rs \<noteq> []"
  shows "(\<exists>out. retrieve self query top_k_arg threshold_arg = Inr out \<and> out \<noteq> []) \<and>
         ((\<forall>r \<in> set rs. (case threshold_arg of None \<Rightarrow> max_distance (retr_cfg self) | Some v \<Rightarrow> v) < snd r)
            \<longrightarrow> (\<exists>best. retrieve self query top_k_arg threshold_arg = Inr [best] \<and> best \<in> set rs \<and>
                   (\<forall>r \<in> set rs. snd best \<le> snd r)))"
proof -
  let ?t = "case threshold_arg of None \<Rightarrow> max_distance (retr_cfg self) | Some v \<Rightarrow> v"
  let ?f = "filter (\<lambda>p. snd p \<le> ?t) rs"
  from py_min_nonempty [OF nonempty, of snd]
  obtain b where b: "py_min snd rs = Inr b" "b \<in> set rs" "\<forall>r \<in> set rs. snd b \<le> snd r"
    by blast
  have ret: "retrieve self query top_k_arg threshold_arg = Inr (if ?f = [] then [b] else ?f)"
    using tokens store rs nonempty b(1)
    by (cases b) (simp add: retrieve_def Let_def threshold_loop_filter)
  have first: "\<exists>out. retrieve self query top_k_arg threshold_arg = Inr out \<and> out \<noteq> []"
    using ret by auto
  have second: "\<exists>best. retrieve self query top_k_arg threshold_arg = Inr [best] \<and> best \<in> set rs \<and>
                   (\<forall>r \<in> set rs. snd best \<le> snd r)"
    if far: "\<forall>r \<in> set rs. ?t < snd r"
  proof -
    from far have "?f = []" by (auto simp: filter_empty_conv)
    with ret have "retrieve self query top_k_arg threshold_arg = Inr [b]" by simp
    with b(2,3) show ?thesis by blast
  qed
  from first second show ?thesis by blast
qed

theorem retrieve_fallback_witness:
  "retrieve demo_retriever ''what is beta?'' None None
     = Inr [(demo_doc ''chunk-00002'' ''beta'', 3 / 2)]"
proof -
  let ?rs = "[(demo_doc ''chunk-00001'' ''alpha'', 2 :: real),
              (demo_doc ''chunk-00002'' ''beta'', 3 / 2),
              (demo_doc ''chunk-00003'' ''gamma'', 3 / 2)]"
  have tokens: "retr_count_tokens demo_retriever ''what is beta?''
                  \<le> max_query_tokens (retr_cfg demo_retriever)"
    by (simp add: retr_count_tokens_def demo_retriever_def default_config_def)
  have store: "retr_store demo_retriever = Some (\<lambda>q k. ?rs)"
    by (simp add: demo_retriever_def)
  have rs: "(\<lambda>q k. ?rs) ''what is beta?''
              (case None of None \<Rightarrow> top_k (retr_cfg demo_retriever) | Some v \<Rightarrow> v) = ?rs"
    by simp
  have ne: "?rs \<noteq> []" by simp
  have far: "\<forall>r \<in> set ?rs.
      (case None of None \<Rightarrow> max_distance (retr_cfg demo_retriever) | Some v \<Rightarrow> v) < snd r"
    by (simp add: demo_retriever_def default_config_def)
  from retrieve_fallback [OF tokens store rs ne, of None] far
  obtain best where best: "retrieve demo_retriever ''what is beta?'' None None = Inr [best]"
    by blast
  have "retrieve demo_retriever ''what is beta?'' None None
          = Inr [(demo_doc ''chunk-00002'' ''beta'', 3 / 2)]"
    by (simp add: retrieve_def demo_retriever_def default_config_def retr_count_tokens_def
        py_min_def demo_doc_def)
  with best show ?thesis by simp
qed

section \<open>Chunking: the window loop\<close>

lemma window_loop_step:
  "window_loop words sz (start # rest) acc =
     (if \<not> kept (window_text words sz start) then window_loop words sz rest acc
      else if min (start + sz) (length words) = length words
        then acc @ [window_text words sz start]
      else window_loop words sz rest (acc @ [window_text words sz start]))"
  by (simp add: Let_def kept_def placeholders_def window_text_def)

lemma window_loop_skip:
  "\<forall>y \<in> set ys. \<not> kept (window_text words sz y) \<Longrightarrow> window_loop words sz ys acc = acc"
  by (induction ys) (simp_all add: window_loop_step del: window_loop.simps(2))

lemma window_loop_prefix:
  "\<forall>x \<in> set xs. x + sz < length words \<Longrightarrow>
     window_loop words sz (xs @ rest) acc
       = window_loop words sz rest (acc @ filter kept (map (window_text words sz) xs))"
  by (induction xs arbitrary: acc) (simp_all add: window_loop_step del: window_loop.simps(2))

lemma window_loop_final:
  assumes "length words \<le> s + sz"
    and "\<not> kept (window_text words sz s) \<Longrightarrow> \<forall>y \<in> set ys. \<not> kept (window_text words sz y)"
  shows "window_loop words sz (s # ys) acc = acc @ filter kept [window_text words sz s]"
  using assms by (simp add: window_loop_step window_loop_skip del: window_loop.simps(2))

lemma window_loop_split:
  assumes "\<forall>x \<in> set xs. x + sz < length words" "length words \<le> s + sz"
    and "\<not> kept (window_text words sz s) \<Longrightarrow> \<forall>y \<in> set ys. \<not> kept (window_text words sz y)"
  shows "window_loop words sz (xs @ s # ys) acc
           = acc @ filter kept (map (window_text words sz) (xs @ [s]))"
  using assms by (simp add: window_loop_prefix window_loop_final del: window_loop.simps(2))

lemma window_text_words:
  assumes "\<forall>w \<in> set words. good_word w" "start < length words" "0 < sz"
  shows "window_text words sz start = py_join '' '' (take sz (drop start words))"
    and "window_text words sz start \<noteq> []"
proof -
  let ?w = "take sz (drop start words)"
  have sl: "py_slice words start (min (start + sz) (length words)) = ?w"
    using assms(2) by (simp add: py_slice_def min_def take_all)
  have ne: "?w \<noteq> []" using assms(2,3) by simp
  have good: "\<forall>w \<in> set ?w. good_word w"
    using assms(1) by (meson in_set_dropD in_set_takeD)
  show "window_text words sz start = py_join '' '' ?w"
    using strip_py_join(1) [OF ne good] by (simp add: window_text_def sl)
  then show "window_text words sz start \<noteq> []"
    using strip_py_join(2) [OF ne good] by simp
qed

lemma placeholder_words:
  assumes "\<forall>w \<in> set ws. good_word w" "py_join '' '' ws \<in> placeholders"
  shows "ws = [''[CLS]''] \<or> ws = [''[SEP]''] \<or> ws = [''[CLS]'', ''[SEP]'']"
proof -
  have "findall_nonspace (py_join '' '' ws) = ws" using assms(1) by (rule findall_nonspace_join)
  moreover have "findall_nonspace ''[CLS]'' = [''[CLS]'']"
    "findall_nonspace ''[SEP]'' = [''[SEP]'']"
    "findall_nonspace ''[CLS] [SEP]'' = [''[CLS]'', ''[SEP]'']"
    by (simp_all add: is_space_def)
  ultimately show ?thesis using assms(2) by (auto simp: placeholders_def)
qed

lemma placeholder_suffix:
  assumes good: "\<forall>w \<in> set words. good_word w"
    and s: "s < y" "y < length words" "length words \<le> s + sz" "0 < sz"
    and ph: "\<not> kept (window_text words sz s)"
  shows "\<not> kept (window_text words sz y)"
proof -
  have sn: "s < length words" using s by simp
  have ws: "window_text words sz s = py_join '' '' (drop s words)"
    using window_text_words(1) [OF good sn s(4)] s(3) by simp
  have wy: "window_text words sz y = py_join '' '' (drop y words)"
    using window_text_words(1) [OF good s(2) s(4)] s(1,3) by simp
  from ph window_text_words(2) [OF good sn s(4)] have "py_join '' '' (drop s words) \<in> placeholders"
    by (simp add: kept_def ws)
  moreover have "\<forall>w \<in> set (drop s words). good_word w" using good by (meson in_set_dropD)
  ultimately have cases: "drop s words = [''[CLS]''] \<or> drop s words = [''[SEP]'']
      \<or> drop s words = [''[CLS]'', ''[SEP]'']"
    by (intro placeholder_words)
  have d: "drop y words = drop (y - s) (drop s words)" using s(1) by simp
  have len: "length (drop s words) = length words - s" by simp
  from cases have "drop y words = [''[SEP]'']"
  proof (elim disjE)
    assume a: "drop s words = [''[CLS]'', ''[SEP]'']"
    with len have "length words - s = 2" by simp
    with s have "y - s = 1" by linarith
    with d a show ?thesis by simp
  next
    assume a: "drop s words = [''[CLS]'']"
    with len have "length words - s = 1" by simp
    with s show ?thesis by linarith
  next
    assume a: "drop s words = [''[SEP]'']"
    with len have "length words - s = 1" by simp
    with s show ?thesis by linarith
  qed
  then show ?thesis by (simp add: wy kept_def placeholders_def)
qed

lemma ceil_div_bounds:
  fixes d st :: nat
  assumes "0 < st"
  shows "d \<le> ((d + st - 1) div st) * st" and "((d + st - 1) div st) * st \<le> d + st - 1"
proof -
  let ?a = "d + st - 1"
  have eq: "?a div st * st + ?a mod st = ?a" by (rule div_mult_mod_eq)
  have "?a mod st < st" using assms by simp
  with eq show "d \<le> ?a div st * st" by linarith
  show "?a div st * st \<le> ?a" by simp
qed

lemma window_count_last:
  assumes "0 < n" "0 < st" "st \<le> sz"
  shows "0 < window_count n sz st"
    and "n \<le> (window_count n sz st - 1) * st + sz"
    and "(window_count n sz st - 1) * st < n"
    and "\<And>i. i + 1 < window_count n sz st \<Longrightarrow> i * st + sz < n"
proof -
  let ?k = "window_count n sz st - 1"
  show "0 < window_count n sz st" using assms by (simp add: window_count_def)
  show "n \<le> ?k * st + sz"
  proof (cases "n \<le> sz")
    case True
    then show ?thesis by simp
  next
    case False
    with assms have k: "?k = (n - sz + st - 1) div st" by (simp add: window_count_def)
    have "n - sz \<le> ?k * st" unfolding k using assms(2) by (rule ceil_div_bounds(1))
    then show ?thesis by linarith
  qed
  show "?k * st < n"
  proof (cases "n \<le> sz")
    case True
    with assms show ?thesis by (simp add: window_count_def)
  next
    case False
    with assms have k: "?k = (n - sz + st - 1) div st" by (simp add: window_count_def)
    have "?k * st \<le> n - sz + st - 1" unfolding k using assms(2) by (rule ceil_div_bounds(2))
    with False assms show ?thesis by linarith
  qed
  show "i * st + sz < n" if i: "i + 1 < window_count n sz st" for i
  proof -
    from i assms have big: "sz < n" and k: "?k = (n - sz + st - 1) div st"
      by (auto simp: window_count_def split: if_splits)
    from i have "Suc i \<le> ?k" by simp
    then have "Suc i * st \<le> ?k * st" by (rule mult_le_mono1)
    also have "\<dots> \<le> n - sz + st - 1" unfolding k using assms(2) by (rule ceil_div_bounds(2))
    finally have "i * st + st \<le> n - sz + st - 1" by simp
    with big assms(2) show ?thesis by linarith
  qed
qed

lemma range_length_bound:
  fixes n st k :: nat
  assumes "0 < st" "k * st < n"
  shows "k < (n + st - 1) div st"
proof (rule ccontr)
  assume "\<not> k < (n + st - 1) div st"
  then have "(n + st - 1) div st * st \<le> k * st" by (simp add: mult_le_mono1)
  with ceil_div_bounds(1) [OF assms(1), of n] assms(2) show False by linarith
qed

lemma range_elems_below:
  fixes n st i :: nat
  assumes "0 < st" "i < (n + st - 1) div st"
  shows "i * st < n"
proof -
  from assms(2) have "Suc i \<le> (n + st - 1) div st" by simp
  then have "Suc i * st \<le> (n + st - 1) div st * st" by (rule mult_le_mono1)
  also have "\<dots> \<le> n + st - 1" using assms(1) by (rule ceil_div_bounds(2))
  finally show ?thesis using assms(1) by simp
qed

lemma chunk_params:
  "1 \<le> chunk_size cfg" "0 \<le> chunk_overlap cfg" "chunk_overlap cfg \<le> chunk_size cfg - 1"
  "1 \<le> chunk_step cfg" "chunk_step cfg \<le> chunk_size cfg"
  by (auto simp: chunk_size_def chunk_overlap_def chunk_step_def max_def min_def)

lemma window_loop_range:
  assumes good: "\<forall>w \<in> set words. good_word w" and ne: "words \<noteq> []"
    and st: "0 < st" "st \<le> sz"
  shows "window_loop words sz (map (\<lambda>i. i * st) [0..<(length words + st - 1) div st]) []
           = filter (\<lambda>c. c \<notin> placeholders) (map (py_join '' '') (spec_windows words sz st))"
proof -
  let ?n = "length words"
  let ?m = "(?n + st - 1) div st"
  let ?c = "window_count ?n sz st"
  let ?k = "?c - 1"
  let ?f = "\<lambda>i. i * st"
  have n: "0 < ?n" using ne by simp
  have sz: "0 < sz" using st by simp
  note wc = window_count_last [OF n st]
  have km: "?k < ?m" using st(1) wc(3) by (rule range_length_bound)
  have split: "[0..<?m] = [0..<?k] @ ?k # [Suc ?k..<?m]"
  proof -
    have "[0..<?k + (?m - ?k)] = [0..<?k] @ [?k..<?k + (?m - ?k)]"
      by (rule upt_add_eq_append) simp
    moreover have "?k + (?m - ?k) = ?m" using km by simp
    ultimately have "[0..<?m] = [0..<?k] @ [?k..<?m]" by simp
    also have "[?k..<?m] = ?k # [Suc ?k..<?m]" using km by (rule upt_conv_Cons)
    finally show ?thesis .
  qed
  have pre: "\<forall>x \<in> set (map ?f [0..<?k]). x + sz < ?n"
    using wc(4) by auto
  have suf: "\<forall>y \<in> set (map ?f [Suc ?k..<?m]). \<not> kept (window_text words sz y)"
    if ph: "\<not> kept (window_text words sz (?k * st))"
  proof
    fix y assume "y \<in> set (map ?f [Suc ?k..<?m])"
    then have "\<exists>j. y = j * st \<and> ?k < j \<and> j < ?m" by (auto simp: image_iff)
    then obtain j where j: "y = j * st" "?k < j" "j < ?m" by blast
    have "?k * st < j * st" using j(2) st(1) by simp
    moreover have "j * st < ?n" using st(1) j(3) by (rule range_elems_below)
    ultimately show "\<not> kept (window_text words sz y)"
      using placeholder_suffix [OF good _ _ wc(2) sz ph, of y] j(1) by simp
  qed
  have "window_loop words sz (map ?f [0..<?m]) []
          = window_loop words sz (map ?f [0..<?k] @ ?k * st # map ?f [Suc ?k..<?m]) []"
    by (subst split) simp
  also have "\<dots> = [] @ filter kept (map (window_text words sz) (map ?f [0..<?k] @ [?k * st]))"
    using pre wc(2) suf by (rule window_loop_split)
  also have "map ?f [0..<?k] @ [?k * st] = map ?f [0..<?c]"
  proof -
    have "Suc ?k = ?c" using wc(1) by simp
    then have "[0..<?c] = [0..<?k] @ [?k]" by (metis upt_Suc_append zero_le)
    then show ?thesis by simp
  qed
  also have "map (window_text words sz) (map ?f [0..<?c])
               = map (py_join '' '') (spec_windows words sz st)"
  proof -
    have "window_text words sz (i * st) = py_join '' '' (take sz (drop (i * st) words))"
      if "i < ?c" for i
    proof -
      from that have "i \<le> ?k" by simp
      then have "i * st \<le> ?k * st" by (rule mult_le_mono1)
      with wc(3) have "i * st < ?n" by linarith
      with good show ?thesis using sz by (intro window_text_words(1))
    qed
    then show ?thesis by (simp add: spec_windows_def)
  qed
  also have "filter kept (map (py_join '' '') (spec_windows words sz st))
               = filter (\<lambda>c. c \<notin> placeholders) (map (py_join '' '') (spec_windows words sz st))"
  proof (rule filter_cong [OF refl])
    fix c assume "c \<in> set (map (py_join '' '') (spec_windows words sz st))"
    then obtain i where i: "i < ?c" "c = py_join '' '' (take sz (drop (i * st) words))"
      by (auto simp: spec_windows_def)
    from i(1) have "i \<le> ?k" by simp
    then have "i * st \<le> ?k * st" by (rule mult_le_mono1)
    with wc(3) have lt: "i * st < ?n" by linarith
    have "c \<noteq> []"
      using window_text_words [OF good lt sz] i(2) by simp
    then show "kept c = (c \<notin> placeholders)" by (simp add: kept_def)
  qed
  finally show ?thesis by simp
qed

lemma chunk_text_windows:
  "chunk_text cfg text =
     Inr (filter (\<lambda>c. c \<notin> placeholders)
           (map (py_join '' '')
             (spec_windows (findall_nonspace text) (nat (chunk_size cfg)) (nat (chunk_step cfg)))))"
proof (cases "findall_nonspace text = []")
  case True
  then show ?thesis by (simp add: chunk_text_def spec_windows_def window_count_def)
next
  case False
  let ?ws = "findall_nonspace text"
  have good: "\<forall>w \<in> set ?ws. good_word w" by (simp add: findall_nonspace_good)
  have st: "0 < nat (chunk_step cfg)" "nat (chunk_step cfg) \<le> nat (chunk_size cfg)"
    using chunk_params [of cfg] by simp_all
  have "py_range0 (length ?ws) (chunk_step cfg)
          = Inr (map (\<lambda>i. i * nat (chunk_step cfg))
                  [0..<(length ?ws + nat (chunk_step cfg) - 1) div nat (chunk_step cfg)])"
    using chunk_params(4) [of cfg] by (simp add: py_range0_def)
  then show ?thesis
    using False window_loop_range [OF good False st] by (simp add: chunk_text_def Let_def)
qed

lemma long_window_kept:
  assumes "\<forall>w \<in> set ws. good_word w" "3 \<le> length ws"
  shows "py_join '' '' ws \<notin> placeholders"
proof
  assume "py_join '' '' ws \<in> placeholders"
  with assms(1) have "ws = [''[CLS]''] \<or> ws = [''[SEP]''] \<or> ws = [''[CLS]'', ''[SEP]'']"
    by (rule placeholder_words)
  with assms(2) show False by auto
qed

lemma spec_windows_scenario:
  assumes "length ws = 1200"
  shows "spec_windows ws 500 400 = [py_slice ws 0 500, py_slice ws 400 900, py_slice ws 800 1200]"
proof -
  have "window_count 1200 500 400 = 3" by (simp add: window_count_def)
  moreover have "[0..<3] = [0, 1, 2]" by (simp add: upt_rec)
  ultimately show ?thesis using assms by (simp add: spec_windows_def py_slice_def)
qed

text \<open>
  Claim C2, amended. For every configuration and section text, \<open>_chunk_text\<close> returns the
  texts of the windows that start at words \<open>0, step, 2 * step, ...\<close> with
  \<open>step = max (size - overlap) 1\<close> and hold up to \<open>size\<close> words, up to and including the
  first window whose end reaches the end of the word sequence, except that windows whose
  text is a placeholder artifact are left out. With size 500 and overlap 100 a section of
  1200 words yields the three chunks of the words \<open>[0:500]\<close>, \<open>[400:900]\<close>, \<open>[800:1200]\<close>.
\<close>

theorem chunk_text_spec_windows:
  "chunk_text cfg text =
     Inr (filter (\<lambda>c. c \<notin> placeholders)
           (map (py_join '' '')
             (spec_windows (findall_nonspace text) (nat (chunk_size cfg)) (nat (chunk_step cfg)))))
   \<and> chunk_step cfg = max (chunk_size cfg - chunk_overlap cfg) 1
   \<and> (findall_nonspace text \<noteq> [] \<longrightarrow>
        (\<forall>i. i + 1 < window_count (length (findall_nonspace text)) (nat (chunk_size cfg)) (nat (chunk_step cfg))
           \<longrightarrow> i * nat (chunk_step cfg) + nat (chunk_size cfg) < length (findall_nonspace text))
        \<and> length (findall_nonspace text)
             \<le> (window_count (length (findall_nonspace text)) (nat (chunk_size cfg)) (nat (chunk_step cfg)) - 1)
                  * nat (chunk_step cfg) + nat (chunk_size cfg))
   \<and> (chunk_size_tokens cfg = 500 \<and> chunk_overlap_tokens cfg = 100
        \<and> length (findall_nonspace text) = 1200 \<longrightarrow>
        chunk_text cfg text =
          Inr [py_join '' '' (py_slice (findall_nonspace text) 0 500),
               py_join '' '' (py_slice (findall_nonspace text) 400 900),
               py_join '' '' (py_slice (findall_nonspace text) 800 1200)])"
proof -
  let ?ws = "findall_nonspace text"
  let ?sz = "nat (chunk_size cfg)"
  let ?st = "nat (chunk_step cfg)"
  have good: "\<forall>w \<in> set ?ws. good_word w" by (simp add: findall_nonspace_good)
  have st: "0 < ?st" "?st \<le> ?sz" using chunk_params [of cfg] by simp_all
  have main: "chunk_text cfg text =
     Inr (filter (\<lambda>c. c \<notin> placeholders) (map (py_join '' '') (spec_windows ?ws ?sz ?st)))"
    by (rule chunk_text_windows)
  have step: "chunk_step cfg = max (chunk_size cfg - chunk_overlap cfg) 1"
    by (simp add: chunk_step_def)
  have last: "(\<forall>i. i + 1 < window_count (length ?ws) ?sz ?st \<longrightarrow> i * ?st + ?sz < length ?ws)
        \<and> length ?ws \<le> (window_count (length ?ws) ?sz ?st - 1) * ?st + ?sz"
    if "?ws \<noteq> []"
  proof -
    from that have n: "0 < length ?ws" by simp
    show ?thesis using window_count_last(2,4) [OF n st] by blast
  qed
  have scen: "chunk_text cfg text =
          Inr [py_join '' '' (py_slice ?ws 0 500), py_join '' '' (py_slice ?ws 400 900),
               py_join '' '' (py_slice ?ws 800 1200)]"
    if c: "chunk_size_tokens cfg = 500" "chunk_overlap_tokens cfg = 100" and len: "length ?ws = 1200"
  proof -
    have p: "?sz = 500" "?st = 400"
      using c by (simp_all add: chunk_size_def chunk_overlap_def chunk_step_def)
    have w: "spec_windows ?ws ?sz ?st = [py_slice ?ws 0 500, py_slice ?ws 400 900, py_slice ?ws 800 1200]"
      unfolding p using len by (rule spec_windows_scenario)
    have k: "py_join '' '' (py_slice ?ws a b) \<notin> placeholders"
      if "3 \<le> length (py_slice ?ws a b)" for a b
      using that good by (intro long_window_kept) (auto simp: py_slice_def dest: in_set_takeD in_set_dropD)
    have "py_join '' '' (py_slice ?ws 0 500) \<notin> placeholders"
      "py_join '' '' (py_slice ?ws 400 900) \<notin> placeholders"
      "py_join '' '' (py_slice ?ws 800 1200) \<notin> placeholders"
      using len by (intro k; simp add: py_slice_def)+
    then show ?thesis by (simp add: main w)
  qed
  from main step last scen show ?thesis by blast
qed

lemma good_word_w: "good_word ''w''"
  by (simp add: good_word_def is_space_def)

theorem chunk_text_spec_windows_witness:
  "length (findall_nonspace (py_join '' '' (replicate 1200 ''w''))) = 1200
   \<and> chunk_text default_config (py_join '' '' (replicate 1200 ''w'')) =
       Inr [py_join '' '' (replicate 500 ''w''), py_join '' '' (replicate 500 ''w''),
            py_join '' '' (replicate 400 ''w'')]"
proof -
  let ?text = "py_join '' '' (replicate 1200 ''w'')"
  have ws: "findall_nonspace ?text = replicate 1200 ''w''"
    by (rule findall_nonspace_join) (simp add: good_word_w)
  have cfg: "chunk_size_tokens default_config = 500 \<and> chunk_overlap_tokens default_config = 100
      \<and> length (findall_nonspace ?text) = 1200"
    by (simp add: default_config_def ws)
  with chunk_text_spec_windows [of default_config ?text]
  have "chunk_text default_config ?text =
          Inr [py_join '' '' (py_slice (findall_nonspace ?text) 0 500),
               py_join '' '' (py_slice (findall_nonspace ?text) 400 900),
               py_join '' '' (py_slice (findall_nonspace ?text) 800 1200)]"
    by blast
  then show ?thesis by (simp add: ws py_slice_def)
qed

theorem chunk_text_placeholder_counterexample:
  "chunk_text default_config ''[CLS]'' = Inr []
   \<and> map (py_join '' '') (spec_windows (findall_nonspace ''[CLS]'') 500 400) = [''[CLS]'']"
  by (simp add: chunk_text_def chunk_size_def chunk_overlap_def chunk_step_def default_config_def
      py_range0_def is_space_def strip_def lstrip_def rstrip_def py_slice_def spec_windows_def
      window_count_def)

text \<open>
  Claim C10. For every \<open>chunk_size >= 1\<close> and every \<open>chunk_overlap\<close>, also outside
  \<open>1 <= overlap < size\<close>, the overlap used lies in \<open>[0, size - 1]\<close> (and is the configured one
  when that lies there), the step is at least 1, the \<open>range\<close> of the window loop does not
  raise, and \<open>_chunk_text\<close> returns a list of chunks for every text.
\<close>

theorem chunk_text_total:
  assumes "1 \<le> chunk_size_tokens cfg"
  shows "chunk_size cfg = chunk_size_tokens cfg
    \<and> 0 \<le> chunk_overlap cfg \<and> chunk_overlap cfg \<le> chunk_size_tokens cfg - 1
    \<and> (0 \<le> chunk_overlap_tokens cfg \<and> chunk_overlap_tokens cfg \<le> chunk_size_tokens cfg - 1
          \<longrightarrow> chunk_overlap cfg = chunk_overlap_tokens cfg)
    \<and> 1 \<le> chunk_step cfg
    \<and> (\<exists>starts. py_range0 (length (findall_nonspace text)) (chunk_step cfg) = Inr starts)
    \<and> (\<exists>chunks. chunk_text cfg text = Inr chunks)"
proof -
  have size: "chunk_size cfg = chunk_size_tokens cfg" using assms by (simp add: chunk_size_def)
  have step: "1 \<le> chunk_step cfg" by (simp add: chunk_step_def)
  then have range:
    "\<exists>starts. py_range0 (length (findall_nonspace text)) (chunk_step cfg) = Inr starts"
    by (simp add: py_range0_def)
  then have "\<exists>chunks. chunk_text cfg text = Inr chunks"
    by (auto simp: chunk_text_def Let_def)
  moreover have "0 \<le> chunk_overlap cfg" "chunk_overlap cfg \<le> chunk_size_tokens cfg - 1"
    using assms by (simp_all add: chunk_overlap_def size)
  moreover have "chunk_overlap cfg = chunk_overlap_tokens cfg"
    if "0 \<le> chunk_overlap_tokens cfg \<and> chunk_overlap_tokens cfg \<le> chunk_size_tokens cfg - 1"
    using that by (simp add: chunk_overlap_def size)
  ultimately show ?thesis using size step range by blast
qed

theorem chunk_text_total_witness:
  "1 \<le> chunk_size_tokens (default_config\<lparr>chunk_size_tokens := 2, chunk_overlap_tokens := 7\<rparr>)
   \<and> chunk_overlap (default_config\<lparr>chunk_size_tokens := 2, chunk_overlap_tokens := 7\<rparr>) = 1
   \<and> chunk_step (default_config\<lparr>chunk_size_tokens := 2, chunk_overlap_tokens := 7\<rparr>) = 1
   \<and> chunk_text (default_config\<lparr>chunk_size_tokens := 2, chunk_overlap_tokens := 7\<rparr>) ''a b c''
       = Inr [''a b'', ''b c'']"
proof -
  let ?cfg = "default_config\<lparr>chunk_size_tokens := 2, chunk_overlap_tokens := 7\<rparr>"
  have h: "1 \<le> chunk_size_tokens ?cfg" by simp
  have o: "chunk_overlap ?cfg = 1" "chunk_step ?cfg = 1"
    by (simp_all add: chunk_overlap_def chunk_step_def chunk_size_def)
  from chunk_text_total [OF h, of "''a b c''"]
  obtain chunks where c: "chunk_text ?cfg ''a b c'' = Inr chunks" by blast
  have "chunk_text ?cfg ''a b c'' = Inr [''a b'', ''b c'']"
    by (simp add: chunk_text_def chunk_size_def chunk_overlap_def chunk_step_def
        py_range0_def is_space_def strip_def lstrip_def rstrip_def py_slice_def)
  with c h o show ?thesis by simp
qed

lemma length_spec_windows: "length (spec_windows ws sz st) = window_count (length ws) sz st"
  by (simp add: spec_windows_def)

lemma nth_spec_windows:
  "i < window_count (length ws) sz st \<Longrightarrow> spec_windows ws sz st ! i = take sz (drop (i * st) ws)"
  by (simp add: spec_windows_def)

lemma spec_windows_length_le: "w \<in> set (spec_windows ws sz st) \<Longrightarrow> length w \<le> sz"
  by (auto simp: spec_windows_def)

lemma spec_windows_overlap:
  assumes st: "0 < st" "st \<le> sz" and i: "i + 1 < length (spec_windows ws sz st)"
  shows "length (spec_windows ws sz st ! i) = sz"
    and "drop st (spec_windows ws sz st ! i) = take (sz - st) (spec_windows ws sz st ! (i + 1))"
    and "length (take (sz - st) (spec_windows ws sz st ! (i + 1))) = sz - st"
proof -
  let ?n = "length ws"
  from i have c: "i + 1 < window_count ?n sz st" by (simp add: length_spec_windows)
  then have n: "0 < ?n" by (auto simp: window_count_def split: if_splits)
  have full: "i * st + sz < ?n" using window_count_last(4) [OF n st c] .
  have wi: "spec_windows ws sz st ! i = take sz (drop (i * st) ws)"
    using c by (simp add: nth_spec_windows)
  have wj: "spec_windows ws sz st ! Suc i = take sz (drop (i * st + st) ws)"
    using c by (simp add: nth_spec_windows add.commute)
  show "length (spec_windows ws sz st ! i) = sz" using full by (simp add: wi)
  show "drop st (spec_windows ws sz st ! i) = take (sz - st) (spec_windows ws sz st ! (i + 1))"
    using st by (simp add: wi wj drop_take add.commute min_def)
  show "length (take (sz - st) (spec_windows ws sz st ! (i + 1))) = sz - st"
    using full st by (simp add: wj)
qed

lemma concat_take_blocks:
  "concat (map (\<lambda>i. take st (drop (i * st) ws)) [0..<k]) = take (k * st) ws"
proof (induction k)
  case 0
  show ?case by simp
next
  case (Suc k)
  have "take (k * st + st) ws = take (k * st) ws @ take st (drop (k * st) ws)"
    by (rule take_add)
  with Suc show ?case by (simp add: add.commute)
qed

lemma reconstruct_spec_windows:
  assumes st: "0 < st" "st \<le> sz"
  shows "reconstruct st (spec_windows ws sz st) = ws"
proof (cases "ws = []")
  case True
  then show ?thesis by (simp add: reconstruct_def spec_windows_def window_count_def)
next
  case False
  let ?n = "length ws"
  let ?c = "window_count ?n sz st"
  let ?k = "?c - 1"
  let ?f = "\<lambda>i. take sz (drop (i * st) ws)"
  from False have n: "0 < ?n" by simp
  note wc = window_count_last [OF n st]
  have c: "Suc ?k = ?c" using wc(1) by simp
  have "[0..<?c] = [0..<?k] @ [?k]" using c by (metis upt_Suc_append zero_le)
  then have sw: "spec_windows ws sz st = map ?f [0..<?k] @ [?f ?k]"
    by (simp add: spec_windows_def)
  have "map (take st) (map ?f [0..<?k]) = map (\<lambda>i. take st (drop (i * st) ws)) [0..<?k]"
    using st(2) by (simp add: min_def)
  then have "concat (map (take st) (map ?f [0..<?k])) = take (?k * st) ws"
    by (simp only: concat_take_blocks)
  moreover have "?f ?k = drop (?k * st) ws" using wc(2) by simp
  ultimately show ?thesis by (simp add: reconstruct_def sw)
qed

lemma spec_windows_good:
  assumes "\<forall>w \<in> set ws. good_word w" "win \<in> set (spec_windows ws sz st)"
  shows "\<forall>w \<in> set win. good_word w"
  using assms by (auto simp: spec_windows_def dest!: in_set_takeD in_set_dropD)

lemma findall_nonspace_windows:
  assumes "\<forall>w \<in> set ws. good_word w"
  shows "map findall_nonspace (map (py_join '' '') (spec_windows ws sz st)) = spec_windows ws sz st"
proof -
  have "findall_nonspace (py_join '' '' win) = win" if "win \<in> set (spec_windows ws sz st)" for win
    using spec_windows_good [OF assms that] by (rule findall_nonspace_join)
  then show ?thesis by (simp add: map_idI)
qed

lemma filter_interior:
  assumes "\<forall>i. 0 < i \<and> Suc i < length xs \<longrightarrow> P (xs ! i)"
  shows "\<exists>k m. filter P xs = take m (drop k xs)"
proof (cases xs)
  case Nil
  then show ?thesis by simp
next
  case (Cons x ys)
  show ?thesis
  proof (cases "ys = []")
    case True
    have "filter P [x] = take (if P x then 1 else 0) (drop 0 [x])" by simp
    then show ?thesis unfolding Cons True by blast
  next
    case False
    define mid where "mid = butlast ys"
    define y where "y = last ys"
    have ys: "ys = mid @ [y]" using False by (simp add: mid_def y_def)
    have xs: "xs = x # mid @ [y]" by (simp add: Cons ys)
    have "P z" if "z \<in> set mid" for z
    proof -
      from that obtain j where j: "j < length mid" "z = mid ! j" by (auto simp: in_set_conv_nth)
      then have "xs ! Suc j = z" by (simp add: xs nth_append)
      moreover have "Suc (Suc j) < length xs" using j(1) by (simp add: xs)
      ultimately show ?thesis using assms by (metis zero_less_Suc)
    qed
    then have fmid: "filter P mid = mid" by (simp add: filter_id_conv)
    have f: "filter P xs = (if P x then [x] else []) @ mid @ (if P y then [y] else [])"
      by (simp add: xs fmid)
    consider "P x" "P y" | "P x" "\<not> P y" | "\<not> P x" "P y" | "\<not> P x" "\<not> P y" by blast
    then show ?thesis
    proof cases
      case 1
      then have "filter P xs = take (length xs) (drop 0 xs)" unfolding f by (simp add: xs)
      then show ?thesis by blast
    next
      case 2
      then have "filter P xs = take (Suc (length mid)) (drop 0 xs)" unfolding f by (simp add: xs)
      then show ?thesis by blast
    next
      case 3
      then have "filter P xs = take (Suc (length mid)) (drop 1 xs)" unfolding f by (simp add: xs)
      then show ?thesis by blast
    next
      case 4
      then have "filter P xs = take (length mid) (drop 1 xs)" unfolding f by (simp add: xs)
      then show ?thesis by blast
    qed
  qed
qed

lemma length_concat_take: "length (concat (map (take st) V)) \<le> length V * st"
  by (induction V) auto

lemma reconstruct_filter_short:
  assumes st: "0 < st" "st \<le> sz" and drop: "\<exists>w \<in> set (spec_windows ws sz st). \<not> P w"
  shows "length (reconstruct st (filter P (spec_windows ws sz st))) < length ws"
proof -
  let ?W = "spec_windows ws sz st"
  let ?n = "length ws"
  let ?c = "window_count ?n sz st"
  from drop have ne: "?W \<noteq> []" by auto
  then have c0: "0 < ?c" by (simp add: spec_windows_def)
  then have n: "0 < ?n" by (auto simp: window_count_def split: if_splits)
  note wc = window_count_last [OF n st]
  define B where "B = butlast ?W"
  define l where "l = last ?W"
  have W: "?W = B @ [l]" using ne by (simp add: B_def l_def)
  have lenB: "length B = ?c - 1" by (simp add: B_def length_spec_windows)
  have "l = ?W ! (?c - 1)" using ne by (simp add: l_def last_conv_nth length_spec_windows)
  also have "\<dots> = take sz (drop ((?c - 1) * st) ws)" using c0 by (simp add: nth_spec_windows)
  finally have l: "length l = ?n - (?c - 1) * st" using wc(2) by simp
  have Bsz: "length w \<le> sz" if "w \<in> set B" for w
    using that spec_windows_length_le [of w ws sz st] by (simp add: W)
  show ?thesis
  proof (cases "P l")
    case True
    with drop have "\<exists>w \<in> set B. \<not> P w" by (auto simp: W)
    then have "length (filter P B) < length B" by (auto intro: length_filter_less)
    then have lt: "Suc (length (filter P B)) \<le> ?c - 1" using lenB by simp
    have "reconstruct st (filter P ?W) = concat (map (take st) (filter P B)) @ l"
      using True by (simp add: W reconstruct_def)
    then have "length (reconstruct st (filter P ?W)) \<le> length (filter P B) * st + length l"
      using length_concat_take [of st "filter P B"] by simp
    also have "\<dots> < Suc (length (filter P B)) * st + length l" using st(1) by simp
    also have "\<dots> \<le> (?c - 1) * st + length l" using lt by (simp only: add_le_cancel_right mult_le_mono1)
    also have "\<dots> = ?n" using l wc(3) by simp
    finally show ?thesis .
  next
    case False
    then have f: "filter P ?W = filter P B" by (simp add: W)
    show ?thesis
    proof (cases "filter P B = []")
      case True
      then show ?thesis using n by (simp add: f reconstruct_def)
    next
      case ne': False
      let ?V = "filter P B"
      from ne' have "B \<noteq> []" by auto
      then have c2: "2 \<le> ?c" using lenB by (cases B) auto
      have "length ?V \<le> ?c - 1" using lenB length_filter_le [of P B] by simp
      then have lv: "length (butlast ?V) \<le> ?c - 2" by simp
      have "last ?V \<in> set ?V" using ne' by (rule last_in_set)
      then have "last ?V \<in> set B" by simp
      then have ll: "length (last ?V) \<le> sz" by (rule Bsz)
      have "length (reconstruct st ?V) = length (concat (map (take st) (butlast ?V))) + length (last ?V)"
        using ne' by (simp add: reconstruct_def)
      also have "\<dots> \<le> length (butlast ?V) * st + sz"
        using length_concat_take [of st "butlast ?V"] ll by linarith
      also have "\<dots> \<le> (?c - 2) * st + sz" using lv by (simp only: add_le_cancel_right mult_le_mono1)
      also have "\<dots> < ?n" using wc(4) [of "?c - 2"] c2 by simp
      finally show ?thesis by (simp add: f)
    qed
  qed
qed


lemma filter_gap:
  assumes len: "Suc (Suc k) < length xs"
    and P: "P (xs ! k)" "\<not> P (xs ! Suc k)" "P (xs ! Suc (Suc k))"
  shows "\<exists>j. Suc j < length (filter P xs) \<and> filter P xs ! j = xs ! k
            \<and> filter P xs ! Suc j = xs ! Suc (Suc k)"
proof -
  let ?A = "filter P (take k xs)"
  let ?B = "filter P (drop (Suc (Suc (Suc k))) xs)"
  have "xs = take k xs @ drop k xs" by simp
  also have "drop k xs = xs ! k # drop (Suc k) xs" using len by (simp add: Cons_nth_drop_Suc)
  also have "drop (Suc k) xs = xs ! Suc k # drop (Suc (Suc k)) xs"
    using len by (simp add: Cons_nth_drop_Suc)
  also have "drop (Suc (Suc k)) xs = xs ! Suc (Suc k) # drop (Suc (Suc (Suc k))) xs"
    using len by (simp add: Cons_nth_drop_Suc)
  finally have "filter P xs
      = filter P (take k xs @ xs ! k # xs ! Suc k # xs ! Suc (Suc k) # drop (Suc (Suc (Suc k))) xs)"
    by simp
  also have "\<dots> = ?A @ xs ! k # xs ! Suc (Suc k) # ?B" using P by simp
  finally have f: "filter P xs = ?A @ xs ! k # xs ! Suc (Suc k) # ?B" .
  have "Suc (length ?A) < length (filter P xs)" unfolding f by simp
  moreover have "filter P xs ! length ?A = xs ! k" unfolding f by (simp only: nth_append_length)
  moreover have "filter P xs ! Suc (length ?A) = xs ! Suc (Suc k)"
    unfolding f by (simp add: nth_append)
  ultimately show ?thesis by blast
qed

lemma chunk_text_filter_windows:
  assumes cfg: "chunk_size_tokens cfg = int sz" "chunk_overlap_tokens cfg = int ov"
    and szov: "1 \<le> ov" "ov < sz"
  shows "chunk_text cfg text =
      Inr (map (py_join '' '')
            (filter (\<lambda>w. py_join '' '' w \<notin> placeholders)
              (spec_windows (findall_nonspace text) sz (sz - ov))))"
    and "map findall_nonspace (map (py_join '' '')
            (filter (\<lambda>w. py_join '' '' w \<notin> placeholders)
              (spec_windows (findall_nonspace text) sz (sz - ov))))
         = filter (\<lambda>w. py_join '' '' w \<notin> placeholders)
              (spec_windows (findall_nonspace text) sz (sz - ov))"
proof -
  let ?ws = "findall_nonspace text"
  let ?W = "spec_windows ?ws sz (sz - ov)"
  let ?P = "\<lambda>w. py_join '' '' w \<notin> placeholders"
  have good: "\<forall>w \<in> set ?ws. good_word w" by (simp add: findall_nonspace_good)
  have p: "nat (chunk_size cfg) = sz" "nat (chunk_step cfg) = sz - ov"
    using cfg szov by (simp_all add: chunk_size_def chunk_overlap_def chunk_step_def)
  have "filter (\<lambda>c. c \<notin> placeholders) (map (py_join '' '') ?W) = map (py_join '' '') (filter ?P ?W)"
    by (simp add: filter_map comp_def)
  then show "chunk_text cfg text = Inr (map (py_join '' '') (filter ?P ?W))"
    using chunk_text_windows [of cfg "text"] by (simp add: p)
  have "findall_nonspace (py_join '' '' win) = win" if "win \<in> set (filter ?P ?W)" for win
  proof -
    from that have "win \<in> set ?W" by simp
    from spec_windows_good [OF good this] show ?thesis by (rule findall_nonspace_join)
  qed
  then have "map (findall_nonspace \<circ> py_join '' '') (filter ?P ?W) = filter ?P ?W"
    by (intro map_idI) simp
  then show "map findall_nonspace (map (py_join '' '') (filter ?P ?W)) = filter ?P ?W"
    by simp
qed

lemma interior_window_placeholder:
  assumes szov: "1 \<le> ov" "ov < sz"
    and good: "\<forall>w \<in> set ws. good_word w"
    and i: "0 < i" "Suc i < length (spec_windows ws sz (sz - ov))"
    and ph: "py_join '' '' (spec_windows ws sz (sz - ov) ! i) \<in> placeholders"
  shows "\<exists>j. Suc j < length (filter (\<lambda>w. py_join '' '' w \<notin> placeholders) (spec_windows ws sz (sz - ov)))
        \<and> drop (sz - ov) (filter (\<lambda>w. py_join '' '' w \<notin> placeholders) (spec_windows ws sz (sz - ov)) ! j)
          \<noteq> take ov (filter (\<lambda>w. py_join '' '' w \<notin> placeholders) (spec_windows ws sz (sz - ov)) ! Suc j)"
proof -
  define W where "W = spec_windows ws sz (sz - ov)"
  let ?P = "\<lambda>w. py_join '' '' w \<notin> placeholders"
  have st: "0 < sz - ov" "sz - ov \<le> sz" using szov by simp_all
  have o: "sz - (sz - ov) = ov" using szov by simp
  have gw: "\<forall>w \<in> set (W ! m). good_word w" if "m < length W" for m
    using spec_windows_good [OF good nth_mem [of m "spec_windows ws sz (sz - ov)"]] that
    by (simp add: W_def)
  have ovl: "length (W ! m) = sz" "drop (sz - ov) (W ! m) = take ov (W ! Suc m)"
    if "Suc m < length W" for m
  proof -
    from that have m: "m + 1 < length (spec_windows ws sz (sz - ov))" by (simp add: W_def)
    show "length (W ! m) = sz" using spec_windows_overlap(1) [OF st m] by (simp add: W_def)
    show "drop (sz - ov) (W ! m) = take ov (W ! Suc m)"
      using spec_windows_overlap(2) [OF st m] by (simp add: W_def o)
  qed
  have iW: "Suc i < length W" using i(2) by (simp add: W_def)
  then have iW': "i < length W" by simp
  have phW: "py_join '' '' (W ! i) \<in> placeholders" using ph by (simp add: W_def)
  from placeholder_words [OF gw [OF iW'] phW] ovl(1) [OF iW] szov
  have wi: "W ! i = [''[CLS]'', ''[SEP]'']" and sz: "sz = 2" by auto
  from sz szov have ov: "ov = 1" and so: "sz - ov = 1" by simp_all
  obtain k where k: "i = Suc k" using i(1) by (cases i) auto
  have kW: "Suc k < length W" using iW' k by simp
  then have kW': "k < length W" by simp
  have lenk: "length (W ! k) = 2" using ovl(1) [OF kW] sz by simp
  have "take ov [''[CLS]'', ''[SEP]''] = [''[CLS]'']" by (simp add: ov)
  then have dk: "drop (sz - ov) (W ! k) = [''[CLS]'']"
    using ovl(2) [OF kW] by (simp only: k [symmetric] wi)
  have Pk: "?P (W ! k)"
  proof
    assume "py_join '' '' (W ! k) \<in> placeholders"
    from placeholder_words [OF gw [OF kW'] this] lenk have e: "W ! k = [''[CLS]'', ''[SEP]'']" by auto
    from dk have "drop (sz - ov) [''[CLS]'', ''[SEP]''] = [''[CLS]'']" by (simp only: e)
    then show False by (simp add: so)
  qed
  have "drop (sz - ov) [''[CLS]'', ''[SEP]''] = [''[SEP]'']" by (simp add: so)
  then have di: "take ov (W ! Suc i) = [''[SEP]'']"
    using ovl(2) [OF iW] by (simp only: wi)
  have n: "0 < length ws"
    using iW by (auto simp: W_def length_spec_windows window_count_def split: if_splits)
  have c: "i + 1 < window_count (length ws) sz (sz - ov)"
    using iW by (simp add: W_def length_spec_windows)
  have full: "i * (sz - ov) + sz < length ws" using window_count_last(4) [OF n st c] .
  have "W ! Suc i = take sz (drop (Suc i * (sz - ov)) ws)"
    using c by (simp add: W_def nth_spec_windows)
  then have "length (W ! Suc i) = min sz (length ws - Suc i * (sz - ov))"
    by (simp only: length_take length_drop min.commute)
  then have lens: "length (W ! Suc i) = 2" using full by (simp add: sz ov)
  have Ps: "?P (W ! Suc i)"
  proof
    assume "py_join '' '' (W ! Suc i) \<in> placeholders"
    from placeholder_words [OF gw [OF iW] this] lens have e: "W ! Suc i = [''[CLS]'', ''[SEP]'']" by auto
    from di have "take ov [''[CLS]'', ''[SEP]''] = [''[SEP]'']" by (simp only: e)
    then show False by (simp add: ov)
  qed
  have len: "Suc (Suc k) < length W" using iW k by simp
  have nP: "\<not> ?P (W ! Suc k)" using phW k by simp
  have Ps': "?P (W ! Suc (Suc k))" using Ps k by simp
  from filter_gap [of k W ?P, OF len Pk nP Ps']
  obtain j where j: "Suc j < length (filter ?P W)" "filter ?P W ! j = W ! k"
    "filter ?P W ! Suc j = W ! Suc (Suc k)" by blast
  have "drop (sz - ov) (filter ?P W ! j) = [''[CLS]'']" by (simp only: j dk)
  moreover have "take ov (filter ?P W ! Suc j) = [''[SEP]'']" by (simp only: j k [symmetric] di)
  ultimately have "drop (sz - ov) (filter ?P W ! j) \<noteq> take ov (filter ?P W ! Suc j)" by simp
  with j(1) show ?thesis unfolding W_def by blast
qed


text \<open>
  Claim C3, amended. For size \<open>S\<close> and overlap \<open>O\<close> with \<open>1 <= O < S\<close> and \<open>step = S - O\<close>, and every
  section text: every chunk has at most \<open>S\<close> words. Every chunk that has a successor has
  exactly \<open>S\<close> words, and its words after the first \<open>step\<close> are exactly the first \<open>O\<close> words of
  its successor, if and only if no window other than the first and the last is a placeholder
  artifact (which chunking discards); this is so whenever \<open>S >= 3\<close>. The first \<open>step\<close> words of
  every chunk but the last, followed by all words of the last chunk, are the word sequence of
  the section if and only if no window of the section is a placeholder artifact.
\<close>

theorem chunk_text_cover:
  assumes cfg: "chunk_size_tokens cfg = int sz" "chunk_overlap_tokens cfg = int ov"
    and szov: "1 \<le> ov" "ov < sz"
  shows "\<exists>chunks. chunk_text cfg text = Inr chunks
    \<and> (\<forall>c \<in> set chunks. length (findall_nonspace c) \<le> sz)
    \<and> ((\<forall>i. i + 1 < length chunks \<longrightarrow>
            length (findall_nonspace (chunks ! i)) = sz
            \<and> drop (sz - ov) (findall_nonspace (chunks ! i)) = take ov (findall_nonspace (chunks ! (i + 1)))
            \<and> length (take ov (findall_nonspace (chunks ! (i + 1)))) = ov)
         \<longleftrightarrow> (\<forall>i. 0 < i \<and> i + 1 < length (spec_windows (findall_nonspace text) sz (sz - ov))
                \<longrightarrow> py_join '' '' (spec_windows (findall_nonspace text) sz (sz - ov) ! i) \<notin> placeholders))
    \<and> (3 \<le> sz \<longrightarrow>
          (\<forall>i. i + 1 < length chunks \<longrightarrow>
            length (findall_nonspace (chunks ! i)) = sz
            \<and> drop (sz - ov) (findall_nonspace (chunks ! i)) = take ov (findall_nonspace (chunks ! (i + 1)))
            \<and> length (take ov (findall_nonspace (chunks ! (i + 1)))) = ov))
    \<and> (reconstruct (sz - ov) (map findall_nonspace chunks) = findall_nonspace text
         \<longleftrightarrow> (\<forall>win \<in> set (spec_windows (findall_nonspace text) sz (sz - ov)).
                py_join '' '' win \<notin> placeholders))"
proof -
  let ?ws = "findall_nonspace text"
  define W where "W = spec_windows ?ws sz (sz - ov)"
  define P where "P = (\<lambda>w. py_join '' '' w \<notin> placeholders)"
  define F where "F = filter P W"
  define chunks where "chunks = map (py_join '' '') F"
  let ?OV = "\<forall>i. i + 1 < length chunks \<longrightarrow>
            length (findall_nonspace (chunks ! i)) = sz
            \<and> drop (sz - ov) (findall_nonspace (chunks ! i)) = take ov (findall_nonspace (chunks ! (i + 1)))
            \<and> length (take ov (findall_nonspace (chunks ! (i + 1)))) = ov"
  let ?INT = "\<forall>i. 0 < i \<and> i + 1 < length W \<longrightarrow> P (W ! i)"
  have good: "\<forall>w \<in> set ?ws. good_word w" by (simp add: findall_nonspace_good)
  have st: "0 < sz - ov" "sz - ov \<le> sz" using szov by simp_all
  have o: "sz - (sz - ov) = ov" using szov by simp
  have res: "chunk_text cfg text = Inr chunks"
    unfolding chunks_def F_def P_def W_def using cfg szov by (rule chunk_text_filter_windows(1))
  have FW: "map findall_nonspace chunks = F"
    unfolding chunks_def F_def P_def W_def using cfg szov by (rule chunk_text_filter_windows(2))
  have len: "length chunks = length F" by (simp add: chunks_def)
  have nth: "findall_nonspace (chunks ! i) = F ! i" if "i < length F" for i
  proof -
    have "map findall_nonspace chunks ! i = findall_nonspace (chunks ! i)"
      using that len by (simp only: nth_map)
    then show ?thesis by (simp only: FW)
  qed
  have ovW: "length (W ! m) = sz \<and> drop (sz - ov) (W ! m) = take ov (W ! (m + 1))
      \<and> length (take ov (W ! (m + 1))) = ov" if "m + 1 < length W" for m
  proof -
    from that have m: "m + 1 < length (spec_windows ?ws sz (sz - ov))" by (simp add: W_def)
    from spec_windows_overlap [OF st m] show ?thesis by (simp only: W_def o)
  qed
  have a: "\<forall>c \<in> set chunks. length (findall_nonspace c) \<le> sz"
  proof
    fix c assume "c \<in> set chunks"
    then have "findall_nonspace c \<in> findall_nonspace ` set chunks" by (rule imageI)
    then have "findall_nonspace c \<in> set (map findall_nonspace chunks)" by (simp only: set_map)
    then have "findall_nonspace c \<in> set F" by (simp only: FW)
    then have "findall_nonspace c \<in> set (spec_windows ?ws sz (sz - ov))" by (simp add: F_def W_def)
    then show "length (findall_nonspace c) \<le> sz" by (rule spec_windows_length_le)
  qed
  have b1: ?OV if int: ?INT
  proof (intro allI impI)
    fix i assume i: "i + 1 < length chunks"
    from int have "\<forall>i. 0 < i \<and> Suc i < length W \<longrightarrow> P (W ! i)" by simp
    from filter_interior [OF this] obtain k m where km: "F = take m (drop k W)"
      unfolding F_def by blast
    from i have iF: "i + 1 < length F" by (simp only: len)
    then have "i + 1 < m \<and> i + 1 < length W - k" by (simp add: km)
    then have im: "i + 1 < m" "k + (i + 1) < length W" by linarith+
    have "F ! i = W ! (k + i)" "F ! (i + 1) = W ! (k + i + 1)"
      using im by (simp_all add: km add.assoc)
    moreover have "findall_nonspace (chunks ! i) = F ! i" "findall_nonspace (chunks ! (i + 1)) = F ! (i + 1)"
      using iF by (simp_all add: nth)
    moreover have "k + i + 1 < length W" using im(2) by simp
    ultimately show "length (findall_nonspace (chunks ! i)) = sz
            \<and> drop (sz - ov) (findall_nonspace (chunks ! i)) = take ov (findall_nonspace (chunks ! (i + 1)))
            \<and> length (take ov (findall_nonspace (chunks ! (i + 1)))) = ov"
      using ovW [of "k + i"] by (simp only:)
  qed
  have b2: ?INT if ov: ?OV
  proof (rule ccontr)
    assume "\<not> ?INT"
    then obtain i where i: "0 < i" "Suc i < length W" "py_join '' '' (W ! i) \<in> placeholders"
      by (auto simp: P_def)
    from interior_window_placeholder [OF szov good i(1) i(2) [unfolded W_def] i(3) [unfolded W_def]]
    obtain j where j: "Suc j < length F" "drop (sz - ov) (F ! j) \<noteq> take ov (F ! Suc j)"
      unfolding F_def P_def W_def by blast
    from j(1) have "j < length F" by simp
    with j(1) have n: "findall_nonspace (chunks ! j) = F ! j"
      "findall_nonspace (chunks ! Suc j) = F ! Suc j"
      by (simp_all only: nth)
    from j(1) have "j + 1 < length chunks" by (simp add: len)
    with ov have "drop (sz - ov) (findall_nonspace (chunks ! j)) = take ov (findall_nonspace (chunks ! (j + 1)))"
      by blast
    with j(2) show False by (simp add: n)
  qed
  have b3: ?INT if "3 \<le> sz"
  proof (intro allI impI)
    fix i assume i: "0 < i \<and> i + 1 < length W"
    then have l: "length (W ! i) = sz" using ovW [of i] by simp
    from i have "W ! i \<in> set (spec_windows ?ws sz (sz - ov))"
      unfolding W_def [symmetric] by simp
    from spec_windows_good [OF good this] have "\<forall>w \<in> set (W ! i). good_word w" .
    then show "P (W ! i)" unfolding P_def using that l by (intro long_window_kept) simp_all
  qed
  have c1: "reconstruct (sz - ov) (map findall_nonspace chunks) = ?ws" if "\<forall>win \<in> set W. P win"
  proof -
    from that have "F = W" by (simp add: F_def filter_id_conv)
    then show ?thesis unfolding FW W_def using st by (simp add: reconstruct_spec_windows)
  qed
  have c2: "\<forall>win \<in> set W. P win" if r: "reconstruct (sz - ov) (map findall_nonspace chunks) = ?ws"
  proof (rule ccontr)
    assume "\<not> (\<forall>win \<in> set W. P win)"
    then have "\<exists>w \<in> set (spec_windows ?ws sz (sz - ov)). \<not> P w" by (simp add: W_def)
    from reconstruct_filter_short [OF st this]
    have "length (reconstruct (sz - ov) F) < length ?ws" by (simp add: F_def W_def)
    with r show False by (simp add: FW)
  qed
  from b1 b2 have b: "?OV \<longleftrightarrow> ?INT" by blast
  from b1 b3 have b': "3 \<le> sz \<longrightarrow> ?OV" by blast
  from c1 c2 have c: "reconstruct (sz - ov) (map findall_nonspace chunks) = ?ws \<longleftrightarrow> (\<forall>win \<in> set W. P win)"
    by blast
  from res a b b' c show ?thesis unfolding W_def P_def by blast
qed


theorem chunk_text_cover_witness:
  "chunk_text (default_config\<lparr>chunk_size_tokens := 3, chunk_overlap_tokens := 1\<rparr>) ''a b c d e''
     = Inr [''a b c'', ''c d e'']
   \<and> length (findall_nonspace ''a b c'') \<le> 3 \<and> length (findall_nonspace ''c d e'') \<le> 3
   \<and> drop 2 (findall_nonspace ''a b c'') = take 1 (findall_nonspace ''c d e'')
   \<and> reconstruct 2 (map findall_nonspace [''a b c'', ''c d e'']) = findall_nonspace ''a b c d e''
   \<and> chunk_text (default_config\<lparr>chunk_size_tokens := 3, chunk_overlap_tokens := 1\<rparr>) ''x y [CLS] [SEP]''
     = Inr [''x y [CLS]'']
   \<and> length (findall_nonspace ''x y [CLS]'') \<le> 3"
proof -
  let ?cfg = "default_config\<lparr>chunk_size_tokens := 3, chunk_overlap_tokens := 1\<rparr>"
  have cfg: "chunk_size_tokens ?cfg = int 3" "chunk_overlap_tokens ?cfg = int 1" by simp_all
  have so: "1 \<le> (1::nat)" "(1::nat) < 3" by simp_all
  have ws: "findall_nonspace ''a b c d e'' = [''a'', ''b'', ''c'', ''d'', ''e'']"
    by (simp add: is_space_def)
  have "[0..<2] = [0, 1]" by (simp add: upt_rec)
  then have W: "spec_windows [''a'', ''b'', ''c'', ''d'', ''e''] 3 2
                  = [[''a'', ''b'', ''c''], [''c'', ''d'', ''e'']]"
    by (simp add: spec_windows_def window_count_def)
  have np: "\<forall>win \<in> set (spec_windows (findall_nonspace ''a b c d e'') 3 (3 - 1)).
              py_join '' '' win \<notin> placeholders"
    unfolding ws by (simp add: W placeholders_def)
  from chunk_text_cover [OF cfg so, of "''a b c d e''"] np
  obtain chunks where c: "chunk_text ?cfg ''a b c d e'' = Inr chunks"
    and b: "\<forall>c \<in> set chunks. length (findall_nonspace c) \<le> 3"
    and ov: "\<forall>i. i + 1 < length chunks \<longrightarrow>
          length (findall_nonspace (chunks ! i)) = 3
          \<and> drop (3 - 1) (findall_nonspace (chunks ! i)) = take 1 (findall_nonspace (chunks ! (i + 1)))
          \<and> length (take 1 (findall_nonspace (chunks ! (i + 1)))) = 1"
    and r: "reconstruct (3 - 1) (map findall_nonspace chunks) = findall_nonspace ''a b c d e''"
    by auto
  have e: "chunk_text ?cfg ''a b c d e'' = Inr [''a b c'', ''c d e'']"
    by (simp add: chunk_text_def chunk_size_def chunk_overlap_def chunk_step_def
        py_range0_def is_space_def strip_def lstrip_def rstrip_def py_slice_def)
  with c have chunks: "chunks = [''a b c'', ''c d e'']" by simp
  from b have b': "length (findall_nonspace ''a b c'') \<le> 3 \<and> length (findall_nonspace ''c d e'') \<le> 3"
    by (simp add: chunks)
  from ov [rule_format, of 0] have o': "drop 2 (findall_nonspace ''a b c'') = take 1 (findall_nonspace ''c d e'')"
    by (simp add: chunks)
  from r have r': "reconstruct 2 (map findall_nonspace [''a b c'', ''c d e''])
      = findall_nonspace ''a b c d e''"
    by (simp add: chunks)
  from chunk_text_cover [OF cfg so, of "''x y [CLS] [SEP]''"]
  obtain chunks2 where c2: "chunk_text ?cfg ''x y [CLS] [SEP]'' = Inr chunks2"
    and b2: "\<forall>c \<in> set chunks2. length (findall_nonspace c) \<le> 3"
    by blast
  have e2: "chunk_text ?cfg ''x y [CLS] [SEP]'' = Inr [''x y [CLS]'']"
    by (simp add: chunk_text_def chunk_size_def chunk_overlap_def chunk_step_def
        py_range0_def is_space_def strip_def lstrip_def rstrip_def py_slice_def)
  with c2 have "chunks2 = [''x y [CLS]'']" by simp
  with b2 have b2': "length (findall_nonspace ''x y [CLS]'') \<le> 3" by simp
  from e b' o' r' e2 b2' show ?thesis by blast
qed

theorem chunk_text_cover_counterexample:
  "chunk_text default_config ''[CLS] [SEP]'' = Inr []
   \<and> reconstruct 400 (map findall_nonspace []) \<noteq> findall_nonspace ''[CLS] [SEP]''
   \<and> chunk_text (default_config\<lparr>chunk_size_tokens := 2, chunk_overlap_tokens := 1\<rparr>) ''a [CLS] [SEP] b''
       = Inr [''a [CLS]'', ''[SEP] b'']
   \<and> drop 1 (findall_nonspace ''a [CLS]'') \<noteq> take 1 (findall_nonspace ''[SEP] b'')"
  by (simp add: chunk_text_def chunk_size_def chunk_overlap_def chunk_step_def default_config_def
      py_range0_def is_space_def strip_def lstrip_def rstrip_def py_slice_def reconstruct_def)

lemma emit_chunks_docs:
  "emit_chunks sec_id source_file pmethod pcs (docs, int n) =
     (docs @ map2 (chunk_doc source_file pmethod) [Suc n..<Suc (n + length pcs)]
               (map (Pair sec_id) pcs),
      int (n + length pcs))"
proof (induction pcs arbitrary: docs n)
  case Nil
  show ?case by simp
next
  case (Cons pc pcs)
  have up: "[Suc n..<Suc (n + length (pc # pcs))] = Suc n # [Suc (Suc n)..<Suc (Suc n + length pcs)]"
  proof -
    have "[Suc n..<Suc (n + length (pc # pcs))] = Suc n # [Suc (Suc n)..<Suc (n + length (pc # pcs))]"
      by (rule upt_conv_Cons) simp
    then show ?thesis by (simp del: upt_Suc)
  qed
  have "emit_chunks sec_id source_file pmethod (pc # pcs) (docs, int n)
          = emit_chunks sec_id source_file pmethod pcs
              (docs @ [chunk_doc source_file pmethod (Suc n) (sec_id, pc)], int (Suc n))"
    by (simp add: Let_def chunk_doc_def add.commute)
  also have "\<dots> = ((docs @ [chunk_doc source_file pmethod (Suc n) (sec_id, pc)])
                        @ map2 (chunk_doc source_file pmethod)
                            [Suc (Suc n)..<Suc (Suc n + length pcs)] (map (Pair sec_id) pcs),
                      int (Suc n + length pcs))"
    by (rule Cons.IH)
  also have "\<dots> = (docs @ map2 (chunk_doc source_file pmethod)
                               [Suc n..<Suc (n + length (pc # pcs))] (map (Pair sec_id) (pc # pcs)),
                      int (n + length (pc # pcs)))"
    unfolding up by simp
  finally show ?case .
qed

lemma zip_upt_append:
  "length xs = m \<Longrightarrow>
     zip [a..<a + (m + k)] (xs @ ys) = zip [a..<a + m] xs @ zip [a + m..<a + m + k] ys"
proof -
  assume l: "length xs = m"
  have "[a..<a + m + k] = [a..<a + m] @ [a + m..<a + m + k]"
    by (rule upt_add_eq_append) simp
  then show ?thesis using l by (simp add: add.assoc)
qed

lemma chunk_text_Inr: "\<exists>cs. chunk_text cfg t = Inr cs"
  using chunk_text_windows [of cfg t] by blast

lemma chunk_pages_loop_docs:
  "chunk_pages_loop cfg source_file pmethod pages (docs, int n) =
     Inr (docs @ map2 (chunk_doc source_file pmethod)
                   [Suc n..<Suc n + length (section_chunks cfg pages)] (section_chunks cfg pages),
          int (n + length (section_chunks cfg pages)))"
proof (induction pages arbitrary: docs n)
  case Nil
  show ?case by (simp add: section_chunks_def)
next
  case (Cons p pages)
  obtain sec_id t where p: "p = (sec_id, t)" by (cases p)
  obtain cs where cs: "chunk_text cfg t = Inr cs" using chunk_text_Inr by blast
  let ?here = "map (Pair sec_id) cs"
  let ?rest = "section_chunks cfg pages"
  have sc: "section_chunks cfg (p # pages) = ?here @ ?rest"
    by (simp add: section_chunks_def p cs)
  have z: "zip [Suc n..<Suc n + (length cs + length ?rest)] (?here @ ?rest)
             = zip [Suc n..<Suc n + length cs] ?here
               @ zip [Suc n + length cs..<Suc n + length cs + length ?rest] ?rest"
    by (rule zip_upt_append) simp
  have "chunk_pages_loop cfg source_file pmethod (p # pages) (docs, int n)
          = chunk_pages_loop cfg source_file pmethod pages
              (docs @ map2 (chunk_doc source_file pmethod) [Suc n..<Suc (n + length cs)] ?here,
               int (n + length cs))"
    by (simp add: p cs emit_chunks_docs del: upt_Suc)
  also have "\<dots> = Inr ((docs @ map2 (chunk_doc source_file pmethod)
                                [Suc n..<Suc (n + length cs)] ?here)
                          @ map2 (chunk_doc source_file pmethod)
                              [Suc (n + length cs)..<Suc (n + length cs) + length ?rest] ?rest,
                        int (n + length cs + length ?rest))"
    by (rule Cons.IH)
  finally show ?case using z by (simp add: sc add.assoc del: upt_Suc)
qed

lemma chunk_pages_docs:
  "chunk_pages cfg pages source_file pmethod =
     Inr (map2 (chunk_doc source_file pmethod)
            [1..<Suc (length (section_chunks cfg pages))] (section_chunks cfg pages))"
  using chunk_pages_loop_docs [of cfg source_file pmethod pages "[]" 0]
  by (simp add: chunk_pages_def del: upt_Suc)

lemma digit_chars:
  "digit_char 0 = CHR ''0''" "digit_char 1 = CHR ''1''" "digit_char 2 = CHR ''2''"
  "digit_char 3 = CHR ''3''" "digit_char 4 = CHR ''4''" "digit_char 5 = CHR ''5''"
  "digit_char 6 = CHR ''6''" "digit_char 7 = CHR ''7''" "digit_char 8 = CHR ''8''"
  "digit_char 9 = CHR ''9''"
  by code_simp+

lemma digit_char_less: "a < b \<Longrightarrow> b < 10 \<Longrightarrow> digit_char a < digit_char b"
  by (simp add: digit_char_def less_char_def)

lemma str_nat_unfold:
  "str_nat n = (if n < 10 then [digit_char n] else str_nat (n div 10) @ [digit_char (n mod 10)])"
  by (rule str_nat.simps)

lemma length_str_nat: "0 < w \<Longrightarrow> n < 10 ^ w \<Longrightarrow> length (str_nat n) \<le> w"
proof (induction w arbitrary: n)
  case 0
  then show ?case by simp
next
  case (Suc w)
  show ?case
  proof (cases "n < 10")
    case True
    then show ?thesis by (subst str_nat_unfold) simp
  next
    case False
    with Suc.prems have w: "0 < w" by (cases w) auto
    from Suc.prems have "n div 10 < 10 ^ w" by (simp add: less_mult_imp_div_less)
    with w have "length (str_nat (n div 10)) \<le> w" by (rule Suc.IH)
    with False show ?thesis by (subst str_nat_unfold) simp
  qed
qed

lemma zfill_step:
  assumes "0 < w"
  shows "zfill (Suc w) (str_nat n) = zfill w (str_nat (n div 10)) @ [digit_char (n mod 10)]"
proof (cases "n < 10")
  case True
  have z: "str_nat 0 = [digit_char 0]" by (subst str_nat_unfold) simp
  have "replicate (w - Suc 0) CHR ''0'' @ [digit_char 0] = replicate w CHR ''0''"
    using assms by (cases w) (simp_all add: replicate_append_same digit_chars)
  with True show ?thesis
    by (subst str_nat_unfold) (simp add: zfill_def z)
next
  case False
  then show ?thesis by (subst str_nat_unfold) (simp add: zfill_def)
qed

lemma length_zfill: "length s \<le> w \<Longrightarrow> length (zfill w s) = w"
  by (simp add: zfill_def)

lemma less_append_same_length:
  fixes u v :: string
  assumes "u < v" "length u = length v"
  shows "u @ x < v @ y"
  using assms lexord_sufI [of u v "{(a, b). a < b}" x y] by (simp add: list_less_def)

lemma less_append_last:
  fixes u :: string
  assumes "x < y"
  shows "u @ [x] < u @ [y]"
  using assms lexord_append_leftI [of "[x]" "[y]" "{(a, b). a < b}" u] by (simp add: list_less_def)

lemma zfill_less:
  "0 < w \<Longrightarrow> a < b \<Longrightarrow> b < 10 ^ w \<Longrightarrow> zfill w (str_nat a) < zfill w (str_nat b)"
proof (induction w arbitrary: a b)
  case 0
  then show ?case by simp
next
  case (Suc w)
  show ?case
  proof (cases "w = 0")
    case True
    with Suc.prems have "a < 10" "b < 10" by simp_all
    then have "str_nat a = [digit_char a]" "str_nat b = [digit_char b]"
      by (simp_all add: str_nat_unfold [of a] str_nat_unfold [of b])
    with Suc.prems True show ?thesis by (simp add: zfill_def digit_char_less)
  next
    case False
    then have w: "0 < w" by simp
    let ?u = "zfill w (str_nat (a div 10))"
    let ?v = "zfill w (str_nat (b div 10))"
    have bd: "b div 10 < 10 ^ w" using Suc.prems by (simp add: less_mult_imp_div_less)
    have ad: "a div 10 < 10 ^ w" using Suc.prems by (simp add: less_mult_imp_div_less)
    have len: "length ?u = w" "length ?v = w"
      using length_str_nat [OF w ad] length_str_nat [OF w bd] by (simp_all add: length_zfill)
    have le: "a div 10 \<le> b div 10" using Suc.prems(2) by (simp add: div_le_mono)
    show ?thesis
    proof (cases "a div 10 < b div 10")
      case True
      with w bd have "?u < ?v" by (intro Suc.IH)
      then have "?u @ [digit_char (a mod 10)] < ?v @ [digit_char (b mod 10)]"
        using len by (intro less_append_same_length) simp_all
      then show ?thesis by (simp only: zfill_step [OF w])
    next
      case False
      with le have eq: "a div 10 = b div 10" by simp
      have "a mod 10 < b mod 10"
        using Suc.prems(2) eq by (metis div_mult_mod_eq nat_add_left_cancel_less)
      then have "digit_char (a mod 10) < digit_char (b mod 10)"
        by (rule digit_char_less) simp
      then have "?u @ [digit_char (a mod 10)] < ?u @ [digit_char (b mod 10)]"
        by (rule less_append_last)
      then show ?thesis by (simp only: zfill_step [OF w] eq)
    qed
  qed
qed

lemma chunk_id_less:
  assumes "a < b" "b < 100000"
  shows "''chunk-'' @ format_05d (int a) < ''chunk-'' @ format_05d (int b)"
proof -
  have "zfill 5 (str_nat a) < zfill 5 (str_nat b)"
    using assms by (intro zfill_less) simp_all
  then have "(''chunk-'' @ zfill 5 (str_nat a), ''chunk-'' @ zfill 5 (str_nat b))
               \<in> lexord {(x, y). x < y}"
    unfolding list_less_def by (rule lexord_append_leftI)
  then show ?thesis by (simp add: format_05d_def list_less_def)
qed

lemma chunk_id_length:
  assumes "b < 100000"
  shows "length (''chunk-'' @ format_05d (int b)) = 11"
proof -
  have "length (str_nat b) \<le> 5" using assms by (intro length_str_nat) simp_all
  then show ?thesis by (simp add: format_05d_def length_zfill)
qed

lemma chunk_ids_docs:
  assumes "length ks = length scs"
  shows "chunk_ids (map2 (chunk_doc source_file pmethod) ks scs)
           = map (\<lambda>k. Some (''chunk-'' @ format_05d (int k))) ks"
  using assms by (induction ks scs rule: list_induct2) (simp_all add: chunk_ids_def chunk_doc_def)

lemma chunk_sections_docs:
  assumes "length ks = length scs"
  shows "map (\<lambda>d. (map_of (metadata d) ''section_or_page'', page_content d))
             (map2 (chunk_doc source_file pmethod) ks scs)
           = map (\<lambda>sc. (Some (fst sc), snd sc)) scs"
  using assms by (induction ks scs rule: list_induct2) (simp_all add: chunk_doc_def)

text \<open>
  Claim C7, amended. For every sequence of cleaned sections, \<open>chunk_pages\<close> returns the chunks
  of the sections in section order and then window order, and the chunk id of the \<open>k\<close>-th
  chunk of the whole document (counting from 1 and never restarting at a section boundary) is
  \<open>chunk-\<close> followed by \<open>k\<close> in decimal, padded with zeros to at least five digits. For a
  document of fewer than 100000 chunks all ids have the same width and are strictly
  increasing as strings along the output.
\<close>

theorem chunk_pages_ids:
  "\<exists>docs ids. chunk_pages cfg pages source_file pmethod = Inr docs
     \<and> map (\<lambda>d. (map_of (metadata d) ''section_or_page'', page_content d)) docs
         = map (\<lambda>sc. (Some (fst sc), snd sc)) (section_chunks cfg pages)
     \<and> chunk_ids docs = map Some ids
     \<and> ids = map (\<lambda>k. ''chunk-'' @ format_05d (int k)) [1..<Suc (length docs)]
     \<and> (length docs < 100000 \<longrightarrow> sorted_wrt (<) ids \<and> (\<forall>s \<in> set ids. length s = 11))"
proof -
  let ?sc = "section_chunks cfg pages"
  let ?ks = "[1..<Suc (length ?sc)]"
  let ?docs = "map2 (chunk_doc source_file pmethod) ?ks ?sc"
  let ?f = "\<lambda>k. ''chunk-'' @ format_05d (int k)"
  have len: "length ?ks = length ?sc" by (simp del: upt_Suc)
  have n: "length ?docs = length ?sc" by (simp del: upt_Suc)
  have res: "chunk_pages cfg pages source_file pmethod = Inr ?docs"
    by (rule chunk_pages_docs)
  have order: "map (\<lambda>d. (map_of (metadata d) ''section_or_page'', page_content d)) ?docs
         = map (\<lambda>sc. (Some (fst sc), snd sc)) ?sc"
    using len by (rule chunk_sections_docs)
  have "chunk_ids ?docs = map (\<lambda>k. Some (?f k)) ?ks"
    using len by (rule chunk_ids_docs)
  then have ids: "chunk_ids ?docs = map Some (map ?f [1..<Suc (length ?docs)])"
    by (simp only: n map_map comp_def)
  have small: "sorted_wrt (<) (map ?f [1..<Suc (length ?docs)])
      \<and> (\<forall>s \<in> set (map ?f [1..<Suc (length ?docs)]). length s = 11)"
    if lt: "length ?docs < 100000"
  proof -
    have "sorted_wrt (\<lambda>a b. ?f a < ?f b) [1..<Suc (length ?docs)]"
    proof (rule sorted_wrt_mono_rel [OF _ sorted_wrt_upt])
      fix a b
      assume "b \<in> set [1..<Suc (length ?docs)]" "a < b"
      with lt show "?f a < ?f b" by (intro chunk_id_less) (simp_all del: upt_Suc)
    qed
    then have "sorted_wrt (<) (map ?f [1..<Suc (length ?docs)])"
      by (simp only: sorted_wrt_map)
    moreover have "length s = 11" if "s \<in> set (map ?f [1..<Suc (length ?docs)])" for s
    proof -
      from that obtain k where "s = ?f k" "k < Suc (length ?docs)" by (auto simp del: upt_Suc)
      with lt show ?thesis using chunk_id_length [of k] by simp
    qed
    ultimately show ?thesis by blast
  qed
  from res order ids small show ?thesis by blast
qed

lemma str_nat_digit: "n < 10 \<Longrightarrow> str_nat n = [digit_char n]"
  by (subst str_nat_unfold) simp

lemma str_nat_more: "10 \<le> n \<Longrightarrow> str_nat n = str_nat (n div 10) @ [digit_char (n mod 10)]"
  by (subst str_nat_unfold) simp

lemma zeros_small:
  "replicate 4 CHR ''0'' = ''0000''" "replicate 3 CHR ''0'' = ''000''"
  "replicate 2 CHR ''0'' = ''00''" "digit_char (Suc 0) = CHR ''1''"
  using digit_chars(2) by (simp_all add: eval_nat_numeral)

lemma format_small:
  "format_05d 1 = ''00001''" "format_05d 2 = ''00002''" "format_05d 3 = ''00003''"
  "format_05d 99999 = ''99999''" "format_05d 100000 = ''100000''"
  by (simp_all add: format_05d_def zfill_def str_nat_digit str_nat_more digit_chars zeros_small)

theorem chunk_pages_ids_witness:
  "map_sum id chunk_ids
     (chunk_pages (default_config\<lparr>chunk_size_tokens := 2, chunk_overlap_tokens := 1\<rparr>)
        [(''page-1'', ''a b c''), (''page-2'', ''d'')] ''f.pdf'' ''deterministic'')
     = Inr [Some ''chunk-00001'', Some ''chunk-00002'', Some ''chunk-00003'']
   \<and> sorted_wrt (<) [''chunk-00001'', ''chunk-00002'', ''chunk-00003'']"
proof -
  let ?cfg = "default_config\<lparr>chunk_size_tokens := 2, chunk_overlap_tokens := 1\<rparr>"
  let ?pages = "[(''page-1'', ''a b c''), (''page-2'', ''d'')]"
  have e: "chunk_pages ?cfg ?pages ''f.pdf'' ''deterministic'' =
    Inr [chunk_doc ''f.pdf'' ''deterministic'' 1 (''page-1'', ''a b''),
         chunk_doc ''f.pdf'' ''deterministic'' 2 (''page-1'', ''b c''),
         chunk_doc ''f.pdf'' ''deterministic'' 3 (''page-2'', ''d'')]"
    by (simp add: chunk_pages_def chunk_text_def chunk_size_def chunk_overlap_def chunk_step_def
        py_range0_def is_space_def strip_def lstrip_def rstrip_def py_slice_def chunk_doc_def)
  from chunk_pages_ids [of ?cfg ?pages "''f.pdf''" "''deterministic''"]
  obtain docs ids where d: "chunk_pages ?cfg ?pages ''f.pdf'' ''deterministic'' = Inr docs"
    and i: "chunk_ids docs = map Some ids"
      "ids = map (\<lambda>k. ''chunk-'' @ format_05d (int k)) [1..<Suc (length docs)]"
    and s: "length docs < 100000 \<longrightarrow> sorted_wrt (<) ids \<and> (\<forall>s \<in> set ids. length s = 11)"
    by blast
  from d e have docs: "docs = [chunk_doc ''f.pdf'' ''deterministic'' 1 (''page-1'', ''a b''),
         chunk_doc ''f.pdf'' ''deterministic'' 2 (''page-1'', ''b c''),
         chunk_doc ''f.pdf'' ''deterministic'' 3 (''page-2'', ''d'')]"
    by simp
  have "[1..<4] = [1, 2, 3]" by (simp add: upt_rec)
  with i(2) have ids: "ids = [''chunk-00001'', ''chunk-00002'', ''chunk-00003'']"
    by (simp add: docs format_small)
  from s have "sorted_wrt (<) ids" by (simp add: docs)
  then show ?thesis using d i(1) by (simp add: ids)
qed

lemma chunk_text_w: "chunk_text default_config ''w'' = Inr [''w'']"
  by (simp add: chunk_text_def chunk_size_def chunk_overlap_def chunk_step_def default_config_def
      py_range0_def is_space_def strip_def lstrip_def rstrip_def py_slice_def)

lemma section_chunks_many_slides: "length (section_chunks default_config many_slides) = 100000"
proof -
  have "section_chunks default_config (map (\<lambda>i. (f i, ''w'')) ks) = map (\<lambda>i. (f i, ''w'')) ks"
    for f :: "nat \<Rightarrow> string" and ks
    by (induction ks) (simp_all add: section_chunks_def chunk_text_w)
  then have "length (section_chunks default_config many_slides) = length [1..<100001::nat]"
    unfolding many_slides_def by (simp only: length_map)
  also have "\<dots> = 100001 - 1" by (simp only: length_upt)
  finally show ?thesis by simp
qed

theorem chunk_pages_ids_counterexample:
  "map_sum id (\<lambda>docs. drop 99998 (chunk_ids docs))
     (chunk_pages default_config many_slides ''deck.pptx'' ''deterministic'')
     = Inr [Some ''chunk-99999'', Some ''chunk-100000'']
   \<and> length ''chunk-99999'' \<noteq> length ''chunk-100000''
   \<and> \<not> ''chunk-99999'' < ''chunk-100000''"
proof -
  let ?sc = "section_chunks default_config many_slides"
  let ?f = "\<lambda>k. Some (''chunk-'' @ format_05d (int k))"
  have n: "length ?sc = 100000" by (rule section_chunks_many_slides)
  have len: "length [1..<Suc (length ?sc)] = length ?sc" by (simp del: upt_Suc)
  have "chunk_ids (map2 (chunk_doc ''deck.pptx'' ''deterministic'') [1..<Suc (length ?sc)] ?sc)
          = map ?f [1..<Suc (length ?sc)]"
    using len by (rule chunk_ids_docs)
  then have "drop 99998 (chunk_ids (map2 (chunk_doc ''deck.pptx'' ''deterministic'')
                [1..<Suc (length ?sc)] ?sc)) = map ?f (drop 99998 [1..<Suc (length ?sc)])"
    by (simp only: drop_map)
  also have "drop 99998 [1..<Suc (length ?sc)] = [1 + 99998..<Suc (length ?sc)]"
    by (simp only: drop_upt)
  also have "[1 + 99998..<Suc (length ?sc)] = [99999..<100001]"
    by (simp only: n) (simp del: upt_Suc upt_rec_numeral)
  also have "[99999..<100001] = [99999, 100000 :: nat]"
  proof -
    have "[99999..<100001] = 99999 # [Suc 99999..<100001 :: nat]" by (rule upt_conv_Cons) simp
    also have "[Suc 99999..<100001] = Suc 99999 # [Suc (Suc 99999)..<100001 :: nat]"
      by (rule upt_conv_Cons) simp
    also have "[Suc (Suc 99999)..<100001 :: nat] = []" by (rule upt_conv_Nil) simp
    finally show ?thesis by simp
  qed
  finally have "drop 99998 (chunk_ids (map2 (chunk_doc ''deck.pptx'' ''deterministic'')
                [1..<Suc (length ?sc)] ?sc)) = [Some ''chunk-99999'', Some ''chunk-100000'']"
    by (simp add: format_small)
  then show ?thesis
    by (simp add: chunk_pages_docs)
qed

section \<open>Generation: context assembly and refusals\<close>

lemma segments_tokens_snoc:
  "segments_tokens self (dss @ [ds])
     = segments_tokens self dss + gen_count_tokens self (segment_of self ds)"
  by (simp add: segments_tokens_def)

lemma segments_tokens_Cons:
  "segments_tokens self (ds # dss)
     = gen_count_tokens self (segment_of self ds) + segments_tokens self dss"
  by (simp add: segments_tokens_def)

lemma build_context_loop_prefix:
  "\<exists>k \<le> length dss.
     build_context_loop self dss (parts, citations, tot)
       = (parts @ map (segment_of self) (take k dss), citations @ map citation_of (take k dss),
          tot + segments_tokens self (take k dss))
     \<and> (\<forall>j. 0 < j \<and> j \<le> k \<longrightarrow>
            tot + segments_tokens self (take j dss) \<le> max_context_tokens (gen_cfg self))
     \<and> (k < length dss \<longrightarrow>
            tot + segments_tokens self (take k dss)
              + gen_count_tokens self (segment_of self (dss ! k)) > max_context_tokens (gen_cfg self))"
proof (induction dss arbitrary: parts citations tot)
  case Nil
  show ?case by (simp add: segments_tokens_def)
next
  case (Cons ds rest)
  let ?t = "gen_count_tokens self (segment_of self ds)"
  show ?case
  proof (cases "tot + ?t > max_context_tokens (gen_cfg self)")
    case True
    then show ?thesis
      by (intro exI [of _ 0]) (simp add: Let_def segments_tokens_def)
  next
    case False
    from Cons.IH [of "parts @ [segment_of self ds]" "citations @ [citation_of ds]" "tot + ?t"]
    obtain k where k: "k \<le> length rest"
      and loop: "build_context_loop self rest
          (parts @ [segment_of self ds], citations @ [citation_of ds], tot + ?t)
        = ((parts @ [segment_of self ds]) @ map (segment_of self) (take k rest),
           (citations @ [citation_of ds]) @ map citation_of (take k rest),
           tot + ?t + segments_tokens self (take k rest))"
      and within: "\<forall>j. 0 < j \<and> j \<le> k \<longrightarrow>
          tot + ?t + segments_tokens self (take j rest) \<le> max_context_tokens (gen_cfg self)"
      and stop: "k < length rest \<longrightarrow>
          tot + ?t + segments_tokens self (take k rest)
            + gen_count_tokens self (segment_of self (rest ! k)) > max_context_tokens (gen_cfg self)"
      by blast
    have a: "build_context_loop self (ds # rest) (parts, citations, tot)
        = (parts @ map (segment_of self) (take (Suc k) (ds # rest)),
           citations @ map citation_of (take (Suc k) (ds # rest)),
           tot + segments_tokens self (take (Suc k) (ds # rest)))"
      using False loop by (simp add: Let_def segments_tokens_Cons)
    have b: "tot + segments_tokens self (take j (ds # rest)) \<le> max_context_tokens (gen_cfg self)"
      if j: "0 < j \<and> j \<le> Suc k" for j
    proof (cases j)
      case 0
      with j show ?thesis by simp
    next
      case (Suc i)
      show ?thesis
      proof (cases "i = 0")
        case True
        with False Suc show ?thesis by (simp add: segments_tokens_def)
      next
        case False
        with j Suc within have "tot + ?t + segments_tokens self (take i rest)
            \<le> max_context_tokens (gen_cfg self)" by simp
        then show ?thesis by (simp add: Suc segments_tokens_Cons)
      qed
    qed
    have c: "tot + segments_tokens self (take (Suc k) (ds # rest))
          + gen_count_tokens self (segment_of self ((ds # rest) ! Suc k))
          > max_context_tokens (gen_cfg self)"
      if "Suc k < length (ds # rest)"
      using that stop by (simp add: segments_tokens_Cons)
    show ?thesis
    proof (intro exI [of _ "Suc k"] conjI)
      show "Suc k \<le> length (ds # rest)" using k by simp
      show "build_context_loop self (ds # rest) (parts, citations, tot)
        = (parts @ map (segment_of self) (take (Suc k) (ds # rest)),
           citations @ map citation_of (take (Suc k) (ds # rest)),
           tot + segments_tokens self (take (Suc k) (ds # rest)))"
        by (rule a)
      show "\<forall>j. 0 < j \<and> j \<le> Suc k \<longrightarrow>
            tot + segments_tokens self (take j (ds # rest)) \<le> max_context_tokens (gen_cfg self)"
        using b by blast
      show "Suc k < length (ds # rest) \<longrightarrow>
            tot + segments_tokens self (take (Suc k) (ds # rest))
              + gen_count_tokens self (segment_of self ((ds # rest) ! Suc k))
              > max_context_tokens (gen_cfg self)"
        using c by blast
    qed
  qed
qed

text \<open>
  Claim C4. For every list of retrieved pairs, \<open>_build_context\<close> includes the segments of
  the first \<open>k\<close> pairs and nothing else, for some \<open>k\<close>: the running token count after each
  included segment is at most \<open>max_context_tokens\<close> (so is the final count, for a budget that
  is not negative), and when \<open>k\<close> is not the whole list, pair \<open>k\<close> is the first whose
  inclusion would exceed the budget; no pair after it is included.
\<close>

theorem build_context_budget:
  "\<exists>k \<le> length dss.
     build_context_loop self dss ([], [], 0)
       = (map (segment_of self) (take k dss), map citation_of (take k dss),
          segments_tokens self (take k dss))
     \<and> build_context self dss
         = (py_join [CHR 0x0A, CHR 0x0A] (map (segment_of self) (take k dss)),
            map citation_of (take k dss))
     \<and> (\<forall>j. 0 < j \<and> j \<le> k \<longrightarrow>
            segments_tokens self (take j dss) \<le> max_context_tokens (gen_cfg self))
     \<and> (0 \<le> max_context_tokens (gen_cfg self) \<longrightarrow>
            segments_tokens self (take k dss) \<le> max_context_tokens (gen_cfg self))
     \<and> (k < length dss \<longrightarrow>
            segments_tokens self (take k dss) + gen_count_tokens self (segment_of self (dss ! k))
              > max_context_tokens (gen_cfg self))"
proof -
  from build_context_loop_prefix [of dss self "[]" "[]" 0]
  obtain k where k: "k \<le> length dss"
    and loop: "build_context_loop self dss ([], [], 0)
       = (map (segment_of self) (take k dss), map citation_of (take k dss),
          segments_tokens self (take k dss))"
    and within: "\<forall>j. 0 < j \<and> j \<le> k \<longrightarrow>
            segments_tokens self (take j dss) \<le> max_context_tokens (gen_cfg self)"
    and stop: "k < length dss \<longrightarrow>
            segments_tokens self (take k dss) + gen_count_tokens self (segment_of self (dss ! k))
              > max_context_tokens (gen_cfg self)"
    by auto
  have ctx: "build_context self dss
         = (py_join [CHR 0x0A, CHR 0x0A] (map (segment_of self) (take k dss)),
            map citation_of (take k dss))"
    by (simp add: build_context_def loop)
  have final: "segments_tokens self (take k dss) \<le> max_context_tokens (gen_cfg self)"
    if "0 \<le> max_context_tokens (gen_cfg self)"
  proof (cases "k = 0")
    case True
    with that show ?thesis by (simp add: segments_tokens_def)
  next
    case False
    with within show ?thesis by simp
  qed
  show ?thesis
  proof (intro exI [of _ k] conjI)
    show "k \<le> length dss" by (rule k)
    show "build_context_loop self dss ([], [], 0)
       = (map (segment_of self) (take k dss), map citation_of (take k dss),
          segments_tokens self (take k dss))" by (rule loop)
    show "build_context self dss
         = (py_join [CHR 0x0A, CHR 0x0A] (map (segment_of self) (take k dss)),
            map citation_of (take k dss))" by (rule ctx)
    show "\<forall>j. 0 < j \<and> j \<le> k \<longrightarrow>
            segments_tokens self (take j dss) \<le> max_context_tokens (gen_cfg self)" by (rule within)
    show "0 \<le> max_context_tokens (gen_cfg self) \<longrightarrow>
            segments_tokens self (take k dss) \<le> max_context_tokens (gen_cfg self)"
      using final by blast
    show "k < length dss \<longrightarrow>
            segments_tokens self (take k dss) + gen_count_tokens self (segment_of self (dss ! k))
              > max_context_tokens (gen_cfg self)" by (rule stop)
  qed
qed

lemma demo_segment_tokens:
  "gen_count_tokens (demo_generator b) (segment_of (demo_generator b) (demo_results ! 0)) = 47"
  "gen_count_tokens (demo_generator b) (segment_of (demo_generator b) (demo_results ! 1)) = 69"
  "gen_count_tokens (demo_generator b) (segment_of (demo_generator b) (demo_results ! 2)) = 46"
  by (simp_all add: gen_count_tokens_def segment_of_def demo_generator_def demo_results_def
      fmt_opt_def strip_def lstrip_def rstrip_def is_space_def)

theorem build_context_budget_witness:
  "build_context (demo_generator 100) demo_results
     = (segment_of (demo_generator 100) (demo_results ! 0), [citation_of (demo_results ! 0)])
   \<and> segments_tokens (demo_generator 100) (take 1 demo_results) = 47
   \<and> 47 + gen_count_tokens (demo_generator 100) (segment_of (demo_generator 100) (demo_results ! 1))
       > max_context_tokens (gen_cfg (demo_generator 100))
   \<and> 47 + gen_count_tokens (demo_generator 100) (segment_of (demo_generator 100) (demo_results ! 2))
       \<le> max_context_tokens (gen_cfg (demo_generator 100))"
proof -
  let ?g = "demo_generator 100"
  have budget: "max_context_tokens (gen_cfg ?g) = 100" by (simp add: demo_generator_def)
  have len: "length demo_results = 3" by (simp add: demo_results_def)
  have t1: "segments_tokens ?g (take 1 demo_results) = 47"
    using demo_segment_tokens(1) [of 100] by (simp add: segments_tokens_def demo_results_def)
  have t2: "segments_tokens ?g (take 2 demo_results) = 116"
    using demo_segment_tokens(1,2) [of 100]
    by (simp add: segments_tokens_def demo_results_def eval_nat_numeral)
  from build_context_budget [of demo_results ?g]
  obtain k where k: "k \<le> length demo_results"
    and ctx: "build_context ?g demo_results
         = (py_join [CHR 0x0A, CHR 0x0A] (map (segment_of ?g) (take k demo_results)),
            map citation_of (take k demo_results))"
    and within: "\<forall>j. 0 < j \<and> j \<le> k \<longrightarrow>
            segments_tokens ?g (take j demo_results) \<le> max_context_tokens (gen_cfg ?g)"
    and stop: "k < length demo_results \<longrightarrow>
            segments_tokens ?g (take k demo_results)
              + gen_count_tokens ?g (segment_of ?g (demo_results ! k))
              > max_context_tokens (gen_cfg ?g)"
    by blast
  have "k \<noteq> 0"
  proof
    assume "k = 0"
    with stop len demo_segment_tokens(1) [of 100] budget show False
      by (simp add: segments_tokens_def)
  qed
  moreover have "\<not> 2 \<le> k"
  proof
    assume "2 \<le> k"
    with within have "segments_tokens ?g (take 2 demo_results) \<le> max_context_tokens (gen_cfg ?g)"
      by simp
    with t2 budget show False by simp
  qed
  ultimately have "k = 1" by simp
  with ctx have "build_context ?g demo_results
     = (segment_of ?g (demo_results ! 0), [citation_of (demo_results ! 0)])"
    by (simp add: demo_results_def)
  with t1 budget demo_segment_tokens(2,3) [of 100] show ?thesis by simp
qed

lemma segment_of_nonempty: "segment_of self ds \<noteq> []"
  by (simp add: segment_of_def Let_def)

lemma build_context_empty:
  assumes "dss \<noteq> []"
  shows "fst (build_context self dss) = []
           \<longleftrightarrow> gen_count_tokens self (segment_of self (hd dss)) > max_context_tokens (gen_cfg self)"
proof -
  from assms obtain ds rest where dss: "dss = ds # rest" by (cases dss) auto
  let ?t = "gen_count_tokens self (segment_of self ds)"
  show ?thesis
  proof (cases "?t > max_context_tokens (gen_cfg self)")
    case True
    then show ?thesis by (simp add: dss build_context_def Let_def)
  next
    case False
    from build_context_loop_prefix [of rest self "[segment_of self ds]" "[citation_of ds]" ?t]
    obtain k where "build_context_loop self rest ([segment_of self ds], [citation_of ds], ?t)
       = ([segment_of self ds] @ map (segment_of self) (take k rest),
          [citation_of ds] @ map citation_of (take k rest),
          ?t + segments_tokens self (take k rest))"
      by blast
    with False have "fst (build_context self dss)
        = py_join [CHR 0x0A, CHR 0x0A] (segment_of self ds # map (segment_of self) (take k rest))"
      by (simp add: dss build_context_def Let_def)
    moreover have "py_join [CHR 0x0A, CHR 0x0A] (segment_of self ds # map (segment_of self) (take k rest)) \<noteq> []"
      by (rule py_join_nonempty) (simp_all add: segment_of_nonempty)
    ultimately show ?thesis using False by (simp add: dss)
  qed
qed

text \<open>
  Claim C9. \<open>generate\<close> has three refusal paths: no retrieved pair, a question above the
  query-token limit, and an empty assembled context (which, for a non-empty retrieval, is the
  case exactly when the first segment alone exceeds the context budget). On each it returns the
  fixed text alone, with no citation suffix, and the empty citation list, and leaves the
  generator as it was; the first and the third return the same text
  \<open>I cannot answer based on the provided document.\<close>
\<close>

theorem generate_refusals:
  "(dss = [] \<longrightarrow>
      generate self question dss
        = (Inr (''I cannot answer based on the provided document.'', []), self))
   \<and> (dss \<noteq> [] \<and> gen_count_tokens self question > max_query_tokens (gen_cfg self) \<longrightarrow>
      generate self question dss
        = (Inr (''Your question is too long. Please shorten it.'', []), self))
   \<and> (dss \<noteq> [] \<and> gen_count_tokens self question \<le> max_query_tokens (gen_cfg self)
        \<and> fst (build_context self dss) = [] \<longrightarrow>
      generate self question dss
        = (Inr (''I cannot answer based on the provided document.'', []), self))
   \<and> (dss \<noteq> [] \<longrightarrow>
      (fst (build_context self dss) = []
        \<longleftrightarrow> gen_count_tokens self (segment_of self (hd dss)) > max_context_tokens (gen_cfg self)))"
proof (intro conjI impI)
  assume "dss = []"
  then show "generate self question dss
        = (Inr (''I cannot answer based on the provided document.'', []), self)"
    by (simp add: generate_def)
next
  assume "dss \<noteq> [] \<and> gen_count_tokens self question > max_query_tokens (gen_cfg self)"
  then show "generate self question dss
        = (Inr (''Your question is too long. Please shorten it.'', []), self)"
    by (simp add: generate_def Let_def)
next
  assume a: "dss \<noteq> [] \<and> gen_count_tokens self question \<le> max_query_tokens (gen_cfg self)
        \<and> fst (build_context self dss) = []"
  obtain ctx cits where bc: "build_context self dss = (ctx, cits)" by (cases "build_context self dss")
  with a have "ctx = []" by simp
  with a bc show "generate self question dss
        = (Inr (''I cannot answer based on the provided document.'', []), self)"
    by (simp add: generate_def Let_def)
next
  assume "dss \<noteq> []"
  then show "fst (build_context self dss) = []
        \<longleftrightarrow> gen_count_tokens self (segment_of self (hd dss)) > max_context_tokens (gen_cfg self)"
    by (rule build_context_empty)
qed

theorem generate_refusals_witness:
  "generate (demo_generator 100) ''q?'' []
     = (Inr (''I cannot answer based on the provided document.'', []), demo_generator 100)
   \<and> generate (demo_generator 100) (replicate 513 CHR ''a'') demo_results
     = (Inr (''Your question is too long. Please shorten it.'', []), demo_generator 100)
   \<and> generate (demo_generator 10) ''q?'' demo_results
     = (Inr (''I cannot answer based on the provided document.'', []), demo_generator 10)"
proof -
  have ne: "demo_results \<noteq> []" by (simp add: demo_results_def)
  have hd: "hd demo_results = demo_results ! 0" by (simp add: demo_results_def)
  have first: "generate (demo_generator 100) ''q?'' []
     = (Inr (''I cannot answer based on the provided document.'', []), demo_generator 100)"
    using generate_refusals [of "[]" "demo_generator 100" "''q?''"] by simp
  have long: "gen_count_tokens (demo_generator 100) (replicate 513 CHR ''a'')
      > max_query_tokens (gen_cfg (demo_generator 100))"
    by (simp add: gen_count_tokens_def demo_generator_def default_config_def)
  have second: "generate (demo_generator 100) (replicate 513 CHR ''a'') demo_results
     = (Inr (''Your question is too long. Please shorten it.'', []), demo_generator 100)"
    using generate_refusals [of demo_results "demo_generator 100" "replicate 513 CHR ''a''"] ne long
    by blast
  have short: "gen_count_tokens (demo_generator 10) ''q?''
      \<le> max_query_tokens (gen_cfg (demo_generator 10))"
    by (simp add: gen_count_tokens_def demo_generator_def default_config_def)
  have over: "gen_count_tokens (demo_generator 10) (segment_of (demo_generator 10) (hd demo_results))
      > max_context_tokens (gen_cfg (demo_generator 10))"
    using demo_segment_tokens(1) [of 10] by (simp add: hd demo_generator_def)
  have third: "generate (demo_generator 10) ''q?'' demo_results
     = (Inr (''I cannot answer based on the provided document.'', []), demo_generator 10)"
    using generate_refusals [of demo_results "demo_generator 10" "''q?''"] ne short over
    by blast
  from first second third show ?thesis by blast
qed

section \<open>Parsing: documents without sections\<close>

lemma parse_pptx_no_slides:
  "pptx_slides env path = Inr [] \<Longrightarrow>
     parse_file env path ''.pptx'' cfg
       = Inr \<lparr> source_path = path, source_filename = basename path, sections_text = [],
                 parsing_method = ''deterministic'', page_count = 0 \<rparr>"
  by (simp add: parse_file_def parse_pptx_def)

lemma length_pptx_sections:
  "length (pptx_sections idx slides sections) = length sections + length slides"
  by (induction slides arbitrary: idx sections) simp_all

text \<open>
  Claim C8, at the failing inputs. A presentation without slides and a PDF document without
  pages are parsed successfully, into a document whose section sequence is empty and whose
  page count is 0.
\<close>

theorem parse_file_empty_success:
  "parse_file no_slides_readers ''deck.pptx'' ''.pptx'' default_config
     = Inr \<lparr> source_path = ''deck.pptx'', source_filename = ''deck.pptx'', sections_text = [],
               parsing_method = ''deterministic'', page_count = 0 \<rparr>
   \<and> parse_file no_slides_readers ''empty.pdf'' ''.pdf'' default_config
     = Inr \<lparr> source_path = ''empty.pdf'', source_filename = ''empty.pdf'', sections_text = [],
               parsing_method = ''deterministic'', page_count = 0 \<rparr>"
  by (simp add: parse_file_def parse_pptx_def parse_pdf_def no_slides_readers_def basename_def
      default_config_def)

section \<open>Cleaning: classification, dropped lines and re-cleaning\<close>










lemma space_not_digit [simp]: "\<not> is_digit (CHR '' '')" "is_space (CHR '' '')"
  by (simp_all add: is_digit_def is_space_def)
















lemma clean_blank_first_doc:
  "clean_text blank_first_doc
     = [(''page-1'', ''CONFIDENTIAL'' @ [CHR 0x0A] @ ''alpha''),
        (''page-2'', ''CONFIDENTIAL'' @ [CHR 0x0A] @ ''beta''),
        (''page-3'', ''CONFIDENTIAL'' @ [CHR 0x0A] @ ''gamma'')]"
  by code_simp

lemma clean_two_headers_doc:
  "clean_text two_headers_doc
     = [(''page-1'', ''B'' @ [CHR 0x0A] @ ''x''), (''page-2'', ''B'' @ [CHR 0x0A] @ ''y'')]"
  by code_simp

lemma reclean_two_headers_doc:
  "clean_text (recleaned two_headers_doc) = [(''page-1'', ''x''), (''page-2'', ''y'')]"
  by code_simp










lemma paged_recleaned [simp]: "paged (recleaned doc) sec_id = paged doc sec_id"
  by (simp add: paged_def recleaned_def)













end
